theory Spec2Isabelle
  imports Complex_Main "HOL-Library.AList" "HOL-Library.Sublist"
begin

section \<open>Data model of the alpha miner\<close>

text \<open>
  The development follows \<^verbatim>\<open>alpha_algo_app.py\<close> and the threshold filter of
  \<^verbatim>\<open>frontend_streamlit_app.py\<close>.

  \<^item> An activity is a Python string, a trace a tuple of activities.
  \<^item> A Python \<^verbatim>\<open>dict\<close> is an association list in insertion order whose keys are
    distinct: \<open>map_of\<close> reads it, \<open>AList.update\<close> is the assignment \<^verbatim>\<open>d[k] = v\<close>
    (an existing key keeps its place, a new key goes to the end).
  \<^item> A Python \<^verbatim>\<open>set\<close> is the list of its elements in iteration order. The iteration
    order of a set of strings is not fixed by the language; the functions that iterate
    over a set therefore take the enumeration as an argument (\<open>footprint_loops\<close>,
    \<open>independent_sets_loop\<close>) and the theorems about them hold for every enumeration.
    An independent set is the list that \<^verbatim>\<open>combinations\<close> yields; \<open>find_transitions\<close> and
    \<open>filter_maximal_sets\<close> are verified for arbitrary lists in place of these.
  \<^item> The four footprint symbols are the string constants \<^verbatim>\<open>"| |"\<close>, \<^verbatim>\<open>" # "\<close>,
    \<^verbatim>\<open>"-->"\<close> and \<^verbatim>\<open>"<--"\<close> of the source.
  \<^item> A count is an arbitrary Python object; \<^verbatim>\<open>isinstance(qty, int)\<close> accepts integers
    and booleans (\<^verbatim>\<open>bool\<close> is a subclass of \<^verbatim>\<open>int\<close>), every other object is carried by
    its printed form.
  \<^item> A frequency is a Python \<^verbatim>\<open>float\<close>, modelled by the rational number that the float
    denotes, so that comparisons of frequencies are exact as they are in Python. The
    division \<^verbatim>\<open>count / len(df_grouped)\<close>, which rounds the quotient to a float, is an
    argument \<open>true_divide\<close> of \<open>read_log_file\<close>; the theorems state what they assume of
    its rounding error, and hold in particular for the exact quotient.
\<close>

type_synonym activity = string
type_synonym trace = "activity list"

datatype pyvalue = PyInt int | PyBool bool | PyOther string

fun isinstance_int :: "pyvalue \<Rightarrow> bool" where
  "isinstance_int (PyInt n) = True"
| "isinstance_int (PyBool b) = True"
| "isinstance_int (PyOther s) = False"

fun int_value :: "pyvalue \<Rightarrow> int" where
  "int_value (PyInt n) = n"
| "int_value (PyBool b) = (if b then 1 else 0)"
| "int_value (PyOther s) = 0"

record metrics =
  count :: "pyvalue option"
  frequency :: rat

type_synonym trace_dict = "(trace \<times> metrics) list"
type_synonym directly_follows = "((activity \<times> activity) \<times> int) list"

datatype relation = Parallel | Independent | CausalForward | CausalBackward

type_synonym footprint = "((activity \<times> activity) \<times> relation) list"
type_synonym transition = "trace \<times> trace"
type_synonym transitions = "(transition \<times> relation) list"

datatype error = ValueError trace pyvalue | IndexError | KeyError

definition dict_get :: "('k \<times> 'v) list \<Rightarrow> 'k \<Rightarrow> 'v \<Rightarrow> 'v" where
  "dict_get d k dflt = (case map_of d k of None \<Rightarrow> dflt | Some v \<Rightarrow> v)"

definition dict_keys :: "('k \<times> 'v) list \<Rightarrow> 'k list" where
  "dict_keys d = map fst d"

section \<open>Trace aggregation: \<^verbatim>\<open>read_log_file\<close>\<close>

text \<open>
  The rows of the CSV file are the input. \<^verbatim>\<open>sort_values(by=['case_id', 'timestamp'])\<close>
  orders the rows by case and then by time, \<^verbatim>\<open>groupby('case_id')\<close> collects one list of
  activities per case, in the order of the sorted rows, \<^verbatim>\<open>value_counts\<close> counts equal
  traces (most frequent first), and the denominator of the frequency is
  \<^verbatim>\<open>len(df_grouped)\<close>, the number of cases. Where the library leaves an order open (rows
  with equal case and time, traces with equal counts) the model keeps the earlier one first;
  no property below depends on that choice.
\<close>

record ('c, 't) event =
  case_id :: 'c
  activity_name :: activity
  timestamp :: 't

definition sort_values :: "('c::linorder, 't::linorder) event list \<Rightarrow> ('c, 't) event list" where
  "sort_values df_log = sort_key case_id (sort_key timestamp df_log)"

definition df_grouped :: "('c::linorder, 't::linorder) event list \<Rightarrow> ('c \<times> trace) list" where
  "df_grouped df_log =
     (let rows = sort_values df_log
      in map (\<lambda>c. (c, map activity_name (filter (\<lambda>e. case_id e = c) rows)))
             (remdups (map case_id rows)))"

definition value_counts :: "trace list \<Rightarrow> (trace \<times> int) list" where
  "value_counts traces =
     sort_key (\<lambda>(t, c). - c) (map (\<lambda>t. (t, int (count_list traces t))) (remdups traces))"

definition read_log_file ::
    "(int \<Rightarrow> nat \<Rightarrow> rat) \<Rightarrow> ('c::linorder, 't::linorder) event list \<Rightarrow> trace_dict" where
  "read_log_file true_divide df_log =
     (let grouped = df_grouped df_log;
          trace_dict = value_counts (map snd grouped)
      in map (\<lambda>(trace, cnt).
                (trace, \<lparr>count = Some (PyInt cnt),
                         frequency = true_divide cnt (length grouped)\<rparr>))
             trace_dict)"

text \<open>
  The division without rounding, and the bound on the rounding error that the theorems
  assume: the result is within the relative error \<open>eps\<close> of the quotient (for the doubles of
  Python \<open>eps\<close> is \<open>2\<close> to the power \<open>-53\<close>; for the exact quotient it is \<open>0\<close>).
\<close>

definition exact_divide :: "int \<Rightarrow> nat \<Rightarrow> rat" where
  "exact_divide c n = of_int c / of_nat n"

definition rounds_within :: "rat \<Rightarrow> (int \<Rightarrow> nat \<Rightarrow> rat) \<Rightarrow> bool" where
  "rounds_within eps true_divide =
     (0 \<le> eps \<and> (\<forall>c n. 0 < c \<and> c \<le> int n \<longrightarrow>
                     \<bar>true_divide c n - exact_divide c n\<bar> \<le> eps * exact_divide c n))"

text \<open>The threshold filter of the front end (\<^verbatim>\<open>start_analyser\<close>, line 169).\<close>

definition min_frequency_filter :: "trace_dict \<Rightarrow> rat \<Rightarrow> trace_dict" where
  "min_frequency_filter traces_dict min_frequency =
     filter (\<lambda>(trace, info). frequency info \<ge> min_frequency) traces_dict"

section \<open>Boundary activities and the directly-follows relation\<close>

text \<open>\<^verbatim>\<open>trace[0]\<close> and \<^verbatim>\<open>trace[-1]\<close> raise \<^verbatim>\<open>IndexError\<close> on the empty tuple.\<close>

definition identify_initial_and_final_events ::
    "trace_dict \<Rightarrow> error + (activity list \<times> activity list)" where
  "identify_initial_and_final_events trace_dict =
     (if [] \<in> set (dict_keys trace_dict) then Inl IndexError
      else Inr (remdups (map hd (dict_keys trace_dict)),
                remdups (map last (dict_keys trace_dict))))"

definition add_edge :: "activity \<times> activity \<Rightarrow> int \<Rightarrow> directly_follows \<Rightarrow> directly_follows" where
  "add_edge pair qty directly_follows =
     AList.update pair (dict_get directly_follows pair 0 + qty) directly_follows"

text \<open>\<^verbatim>\<open>metrics.get('count', 0)\<close>\<close>

definition get_count :: "metrics \<Rightarrow> pyvalue" where
  "get_count metrics = (case count metrics of None \<Rightarrow> PyInt 0 | Some v \<Rightarrow> v)"

definition process_trace ::
    "activity list \<Rightarrow> activity list \<Rightarrow> trace \<Rightarrow> metrics \<Rightarrow> directly_follows
      \<Rightarrow> error + directly_follows" where
  "process_trace start_events end_events trace metrics directly_follows =
     (let qty = get_count metrics
      in if \<not> isinstance_int qty then Inl (ValueError trace qty)
         else if trace = [] then Inl IndexError
         else
           let q = int_value qty;
               df1 = (if hd trace \<in> set start_events
                      then add_edge (''start'', hd trace) q directly_follows
                      else directly_follows);
               df2 = fold (\<lambda>i df. add_edge (trace ! i, trace ! (i + 1)) q df)
                          [0..<length trace - 1] df1;
               df3 = (if last trace \<in> set end_events
                      then add_edge (last trace, ''end'') q df2
                      else df2)
           in Inr df3)"

fun directly_follows_loop ::
    "activity list \<Rightarrow> activity list \<Rightarrow> trace_dict \<Rightarrow> directly_follows
      \<Rightarrow> error + directly_follows" where
  "directly_follows_loop start_events end_events [] directly_follows = Inr directly_follows"
| "directly_follows_loop start_events end_events ((trace, metrics) # rest) directly_follows =
     (case process_trace start_events end_events trace metrics directly_follows of
        Inl e \<Rightarrow> Inl e
      | Inr df \<Rightarrow> directly_follows_loop start_events end_events rest df)"

definition compute_directly_follows ::
    "trace_dict \<Rightarrow> activity list \<Rightarrow> activity list \<Rightarrow> error + directly_follows" where
  "compute_directly_follows trace_dict start_events end_events =
     directly_follows_loop start_events end_events trace_dict []"

section \<open>Footprint\<close>

definition sentinel :: "activity \<Rightarrow> bool" where
  "sentinel a = (a \<in> {''start'', ''end''})"

definition activities :: "directly_follows \<Rightarrow> activity list" where
  "activities directly_follows =
     remdups ([a. (a, b) \<leftarrow> dict_keys directly_follows, \<not> sentinel a]
              @ [b. (a, b) \<leftarrow> dict_keys directly_follows, \<not> sentinel b])"

definition follows :: "directly_follows \<Rightarrow> activity \<Rightarrow> activity \<Rightarrow> bool" where
  "follows directly_follows a b = ((a, b) \<in> set (dict_keys directly_follows))"

definition footprint_entry :: "directly_follows \<Rightarrow> activity \<Rightarrow> activity \<Rightarrow> relation" where
  "footprint_entry directly_follows a b =
     (if a = b then (if follows directly_follows a a then Parallel else Independent)
      else
        let follows_ab = follows directly_follows a b;
            follows_ba = follows directly_follows b a
        in if follows_ab \<and> follows_ba then Parallel
           else if follows_ab then CausalForward
           else if follows_ba then CausalBackward
           else Independent)"

definition footprint_loops :: "activity list \<Rightarrow> directly_follows \<Rightarrow> footprint" where
  "footprint_loops acts directly_follows =
     fold (\<lambda>a fp. fold (\<lambda>b fp'. AList.update (a, b) (footprint_entry directly_follows a b) fp')
                        acts fp)
          acts []"

definition create_footprint :: "directly_follows \<Rightarrow> footprint" where
  "create_footprint directly_follows =
     footprint_loops (activities directly_follows) directly_follows"

section \<open>Independent sets\<close>

text \<open>
  \<^verbatim>\<open>itertools.combinations(xs, r)\<close>: the subsequences of length \<open>r\<close>, in the
  lexicographic order of their positions.
\<close>

fun combinations :: "'a list \<Rightarrow> nat \<Rightarrow> 'a list list" where
  "combinations xs 0 = [[]]"
| "combinations [] (Suc r) = []"
| "combinations (x # xs) (Suc r) =
     map ((#) x) (combinations xs r) @ combinations xs (Suc r)"

definition is_independent_set :: "footprint \<Rightarrow> activity list \<Rightarrow> bool" where
  "is_independent_set footprint_matrix group_of_events =
     list_all (\<lambda>i. list_all (\<lambda>j.
         \<not> (dict_get footprint_matrix (group_of_events ! i, group_of_events ! j) Independent
               \<noteq> Independent
            \<or> dict_get footprint_matrix (group_of_events ! j, group_of_events ! i) Independent
               \<noteq> Independent))
       [i + 1..<length group_of_events])
     [0..<length group_of_events]"

definition events_of :: "footprint \<Rightarrow> activity list" where
  "events_of footprint_matrix =
     remdups (map (\<lambda>(a, b). a) (dict_keys footprint_matrix)
              @ map (\<lambda>(a, b). b) (dict_keys footprint_matrix))"

definition independent_sets_loop :: "footprint \<Rightarrow> activity list \<Rightarrow> activity list list" where
  "independent_sets_loop footprint_matrix events =
     concat (map (\<lambda>r. filter (is_independent_set footprint_matrix) (combinations events r))
                 [1..<length events + 1])"

definition find_independent_sets :: "footprint \<Rightarrow> activity list list" where
  "find_independent_sets footprint_matrix =
     independent_sets_loop footprint_matrix (events_of footprint_matrix)"

section \<open>Transitions\<close>

text \<open>
  \<^verbatim>\<open>check_relationship\<close> is only ever called with two sets, which is the branch modelled.
  \<^verbatim>\<open>footprint_matrix.get((a, b))\<close> is \<^verbatim>\<open>None\<close> for a missing key, and \<^verbatim>\<open>None\<close> is then a
  member of \<^verbatim>\<open>relationships\<close> like any symbol.
\<close>

definition check_relationship :: "footprint \<Rightarrow> activity list \<Rightarrow> activity list \<Rightarrow> relation option" where
  "check_relationship footprint_matrix A B =
     (let relationships = remdups (concat (map (\<lambda>a. map (\<lambda>b. map_of footprint_matrix (a, b)) B) A))
      in if length relationships = 1 then hd relationships else None)"

definition record_transition :: "footprint \<Rightarrow> activity list list \<Rightarrow> transitions \<Rightarrow> transitions" where
  "record_transition footprint_matrix pair transitions =
     (case pair of
        [set1, set2] \<Rightarrow>
          (let relationship = check_relationship footprint_matrix set1 set2
           in if relationship = Some CausalForward \<or> relationship = Some Parallel
              then AList.update (set1, set2) (the relationship) transitions
              else if relationship = Some CausalBackward
              then AList.update (set2, set1) CausalForward transitions
              else transitions)
      | _ \<Rightarrow> transitions)"

definition find_transitions :: "footprint \<Rightarrow> activity list list \<Rightarrow> transitions" where
  "find_transitions footprint_matrix independent_sets =
     fold (record_transition footprint_matrix) (combinations independent_sets 2) []"

section \<open>Maximal transitions\<close>








section \<open>Vocabulary of the specification\<close>

text \<open>
  A real activity of a directly-follows relation: a label other than the two sentinels
  that is the source or the target of some edge.
\<close>

definition real_activity :: "directly_follows \<Rightarrow> activity \<Rightarrow> bool" where
  "real_activity df a =
     (a \<noteq> ''start'' \<and> a \<noteq> ''end'' \<and> list_ex (\<lambda>(x, y). x = a \<or> y = a) (dict_keys df))"

text \<open>
  A set of activities is pairwise independent in a footprint when every two distinct
  members read as independent in both directions, with the reading of the source
  (\<^verbatim>\<open>footprint_matrix.get((a, b), ' # ')\<close>: a missing pair reads as independent).
\<close>

definition pairwise_independent :: "footprint \<Rightarrow> activity set \<Rightarrow> bool" where
  "pairwise_independent fp S =
     (\<forall>a\<in>S. \<forall>b\<in>S. a \<noteq> b \<longrightarrow>
        dict_get fp (a, b) Independent = Independent
        \<and> dict_get fp (b, a) Independent = Independent)"

text \<open>
  Every cross pair \<open>(a, b)\<close> with \<open>a\<close> in \<open>A\<close> and \<open>b\<close> in \<open>B\<close> carries the
  symbol \<open>s\<close> in the footprint.
\<close>

definition cross_relation :: "footprint \<Rightarrow> activity list \<Rightarrow> activity list \<Rightarrow> relation \<Rightarrow> bool" where
  "cross_relation fp A B s = list_all (\<lambda>a. list_all (\<lambda>b. map_of fp (a, b) = Some s) B) A"

text \<open>The assignment that one iteration of the loop of \<^verbatim>\<open>find_transitions\<close> performs, if any.\<close>

definition transition_of :: "footprint \<Rightarrow> activity list list \<Rightarrow> (transition \<times> relation) option" where
  "transition_of fp pair =
     (case pair of
        [set1, set2] \<Rightarrow>
          (let relationship = check_relationship fp set1 set2
           in if relationship = Some CausalForward \<or> relationship = Some Parallel
              then Some ((set1, set2), the relationship)
              else if relationship = Some CausalBackward
              then Some ((set2, set1), CausalForward)
              else None)
      | _ \<Rightarrow> None)"

text \<open>
  The edges that one trace contributes to the directly-follows relation, in the order of
  the source: the start edge, the consecutive pairs, the end edge.
\<close>

definition trace_edges :: "activity list \<Rightarrow> activity list \<Rightarrow> trace \<Rightarrow> (activity \<times> activity) list" where
  "trace_edges start_events end_events trace =
     (if hd trace \<in> set start_events then [(''start'', hd trace)] else [])
     @ map (\<lambda>i. (trace ! i, trace ! (i + 1))) [0..<length trace - 1]
     @ (if last trace \<in> set end_events then [(last trace, ''end'')] else [])"

text \<open>
  An entry of the trace dictionary that \<^verbatim>\<open>compute_directly_follows\<close> processes without an
  exception: its count passes \<^verbatim>\<open>isinstance(qty, int)\<close> and its trace is not empty.
\<close>

definition accepted :: "trace \<times> metrics \<Rightarrow> bool" where
  "accepted entry = (fst entry \<noteq> [] \<and> isinstance_int (get_count (snd entry)))"

text \<open>
  The trace dictionary of the worked example (six cases), and the directly-follows relation
  that the example expects for it.
\<close>

definition scenario :: trace_dict where
  "scenario =
     [([''a'', ''b'', ''c'', ''d''], \<lparr>count = Some (PyInt 3), frequency = 3 / 6\<rparr>),
      ([''a'', ''c'', ''b'', ''d''], \<lparr>count = Some (PyInt 2), frequency = 2 / 6\<rparr>),
      ([''a'', ''e'', ''d''], \<lparr>count = Some (PyInt 1), frequency = 1 / 6\<rparr>)]"

definition scenario_df :: directly_follows where
  "scenario_df =
     [((''start'', ''a''), 6), ((''a'', ''b''), 3), ((''b'', ''c''), 3), ((''c'', ''d''), 3),
      ((''d'', ''end''), 6), ((''a'', ''c''), 2), ((''c'', ''b''), 2), ((''b'', ''d''), 2),
      ((''a'', ''e''), 1), ((''e'', ''d''), 1)]"

text \<open>
  The cross pairs that a transition covers: the Cartesian product of its input set and its
  output set.
\<close>

definition coverage :: "transition \<Rightarrow> (activity \<times> activity) set" where
  "coverage complex_set = set (fst complex_set) \<times> set (snd complex_set)"



text \<open>
  The two properties of the dictionaries that \<^verbatim>\<open>find_transitions\<close> builds from distinct,
  non-empty independent sets: no input or output set is empty, and two different keys never
  cover the same pairs.
\<close>

definition nonempty_sets :: "transitions \<Rightarrow> bool" where
  "nonempty_sets ts = list_all (\<lambda>k. fst k \<noteq> [] \<and> snd k \<noteq> []) (dict_keys ts)"

definition coverage_distinct :: "transitions \<Rightarrow> bool" where
  "coverage_distinct ts =
     list_all (\<lambda>k. list_all (\<lambda>l. k = l \<or> coverage k \<noteq> coverage l) (dict_keys ts))
              (dict_keys ts)"

text \<open>
  The traces of the cases of a log, one per case (the column \<^verbatim>\<open>df_grouped['trace']\<close>), and
  the sums of the counts and of the frequencies of a trace dictionary.
\<close>

definition case_traces :: "('c::linorder, 't::linorder) event list \<Rightarrow> trace list" where
  "case_traces df_log = map snd (df_grouped df_log)"

definition total_frequency :: "trace_dict \<Rightarrow> rat" where
  "total_frequency td = sum_list (map (\<lambda>(trace, info). frequency info) td)"

definition total_count :: "trace_dict \<Rightarrow> int" where
  "total_count td = sum_list (map (\<lambda>(trace, info). int_value (get_count info)) td)"

section \<open>Properties\<close>

subsection \<open>Dictionaries built by loops of assignments\<close>

lemma map_of_fold_update:
  "map_of (fold (\<lambda>k. AList.update k (f k)) ks acc) k
     = (if k \<in> set ks then Some (f k) else map_of acc k)"
  by (induction ks arbitrary: acc) (auto simp: update_conv')

lemma keys_fold_update:
  "fst ` set (fold (\<lambda>k. AList.update k (f k)) ks acc) = set ks \<union> fst ` set acc"
  by (induction ks arbitrary: acc) (auto simp: dom_update)

lemma distinct_fold_update:
  "distinct (map fst acc) \<Longrightarrow> distinct (map fst (fold (\<lambda>k. AList.update k (f k)) ks acc))"
  by (induction ks arbitrary: acc) (auto simp: distinct_update)

lemma footprint_loops_product_aux:
  "fold (\<lambda>a fp. fold (\<lambda>b fp'. AList.update (a, b) (g a b) fp') bs fp) as acc
     = fold (\<lambda>k. AList.update k (case k of (a, b) \<Rightarrow> g a b)) (List.product as bs) acc"
  by (induction as arbitrary: acc) (auto simp: fold_map comp_def)

lemma footprint_loops_product:
  "footprint_loops acts df
     = fold (\<lambda>k. AList.update k (case k of (a, b) \<Rightarrow> footprint_entry df a b)) (List.product acts acts) []"
  unfolding footprint_loops_def by (rule footprint_loops_product_aux)

lemma map_of_footprint_loops:
  "map_of (footprint_loops acts df) (a, b)
     = (if a \<in> set acts \<and> b \<in> set acts then Some (footprint_entry df a b) else None)"
  by (simp add: footprint_loops_product map_of_fold_update)

lemma distinct_footprint_loops: "distinct (map fst (footprint_loops acts df))"
  by (simp add: footprint_loops_product distinct_fold_update)

lemma set_activities:
  "set (activities df) = {x. \<not> sentinel x \<and> (\<exists>y. follows df x y \<or> follows df y x)}"
  by (auto simp: activities_def follows_def dict_keys_def)

lemma real_activity_iff: "real_activity df a \<longleftrightarrow> a \<in> set (activities df)"
  by (auto simp: real_activity_def set_activities sentinel_def follows_def list_ex_iff)

lemma map_of_create_footprint:
  "map_of (create_footprint df) (a, b)
     = (if real_activity df a \<and> real_activity df b then Some (footprint_entry df a b) else None)"
  by (simp add: create_footprint_def map_of_footprint_loops real_activity_iff)

lemma create_footprint_any_order:
  "set acts = set (activities df) \<Longrightarrow> map_of (footprint_loops acts df) = map_of (create_footprint df)"
  by (rule ext) (auto simp: create_footprint_def map_of_footprint_loops)

text \<open>
  Claim C1. For every ordered pair \<open>(a, b)\<close> of real activities of the directly-follows
  relation, \<^verbatim>\<open>create_footprint\<close> stores exactly one symbol, the one of the policy table:
  for \<open>a = b\<close> parallel when the self-edge is present and independent otherwise; for
  \<open>a \<noteq> b\<close> parallel when both edges are present, causal-forward when only \<open>(a, b)\<close> is,
  causal-backward when only \<open>(b, a)\<close> is, independent when neither is. The keys of the
  footprint are exactly the pairs of real activities (the dictionary has no duplicate key),
  so \<^verbatim>\<open>start\<close> and \<^verbatim>\<open>end\<close> never occur in them.
\<close>

theorem create_footprint_policy:
  "(real_activity df a \<and> real_activity df b \<longrightarrow>
      map_of (create_footprint df) (a, b) =
        Some (if a = b then (if (a, a) \<in> fst ` set df then Parallel else Independent)
              else if (a, b) \<in> fst ` set df \<and> (b, a) \<in> fst ` set df then Parallel
              else if (a, b) \<in> fst ` set df then CausalForward
              else if (b, a) \<in> fst ` set df then CausalBackward
              else Independent))
   \<and> (map_of (create_footprint df) (a, b) \<noteq> None \<longrightarrow>
        real_activity df a \<and> real_activity df b
        \<and> a \<noteq> ''start'' \<and> a \<noteq> ''end'' \<and> b \<noteq> ''start'' \<and> b \<noteq> ''end'')
   \<and> distinct (map fst (create_footprint df))"
proof -
  have dom: "map_of (create_footprint df) (a, b) \<noteq> None \<longrightarrow>
        real_activity df a \<and> real_activity df b
        \<and> a \<noteq> ''start'' \<and> a \<noteq> ''end'' \<and> b \<noteq> ''start'' \<and> b \<noteq> ''end''"
    by (simp add: map_of_create_footprint) (simp add: real_activity_def)
  have dist: "distinct (map fst (create_footprint df))"
    by (simp add: create_footprint_def distinct_footprint_loops)
  have keys: "\<And>x y. follows df x y \<longleftrightarrow> (x, y) \<in> fst ` set df"
    by (simp add: follows_def dict_keys_def)
  show ?thesis
    using dom dist by (simp add: map_of_create_footprint footprint_entry_def keys)
qed

theorem create_footprint_policy_witness:
  "real_activity [((''start'', ''a''), 1), ((''a'', ''b''), 1), ((''b'', ''end''), 1)] ''a''
   \<and> real_activity [((''start'', ''a''), 1), ((''a'', ''b''), 1), ((''b'', ''end''), 1)] ''b''
   \<and> map_of (create_footprint [((''start'', ''a''), 1), ((''a'', ''b''), 1), ((''b'', ''end''), 1)])
         (''a'', ''b'') = Some CausalForward"
  using create_footprint_policy
          [of "[((''start'', ''a''), 1), ((''a'', ''b''), 1), ((''b'', ''end''), 1)]" "''a''" "''b''"]
  by (simp add: real_activity_def dict_keys_def)

text \<open>
  Claim C2. In every footprint built by \<^verbatim>\<open>create_footprint\<close>, \<open>(a, b)\<close> is causal-forward
  exactly when \<open>(b, a)\<close> is causal-backward, and parallel and independent are symmetric.
\<close>

theorem footprint_symmetry:
  "(map_of (create_footprint df) (a, b) = Some CausalForward
      \<longleftrightarrow> map_of (create_footprint df) (b, a) = Some CausalBackward)
   \<and> (map_of (create_footprint df) (a, b) = Some Parallel
      \<longleftrightarrow> map_of (create_footprint df) (b, a) = Some Parallel)
   \<and> (map_of (create_footprint df) (a, b) = Some Independent
      \<longleftrightarrow> map_of (create_footprint df) (b, a) = Some Independent)"
  by (auto simp: map_of_create_footprint footprint_entry_def Let_def)

theorem footprint_symmetry_witness:
  "map_of (create_footprint [((''start'', ''a''), 1), ((''a'', ''b''), 1), ((''b'', ''end''), 1)])
         (''a'', ''b'') = Some CausalForward
   \<and> map_of (create_footprint [((''start'', ''a''), 1), ((''a'', ''b''), 1), ((''b'', ''end''), 1)])
         (''b'', ''a'') = Some CausalBackward"
  using footprint_symmetry
          [of "[((''start'', ''a''), 1), ((''a'', ''b''), 1), ((''b'', ''end''), 1)]" "''a''" "''b''"]
  by (simp add: map_of_create_footprint real_activity_def dict_keys_def footprint_entry_def follows_def)

subsection \<open>Combinations and independent sets\<close>

lemma in_combinations_iff:
  "ys \<in> set (combinations xs r) \<longleftrightarrow> subseq ys xs \<and> length ys = r"
proof (induction xs r arbitrary: ys rule: combinations.induct)
  case (1 xs)
  then show ?case by auto
next
  case (2 r)
  then show ?case by auto
next
  case (3 x xs r)
  show ?case
  proof (cases ys)
    case Nil
    then show ?thesis using 3 by auto
  next
    case (Cons y ys')
    then show ?thesis
      using 3 by (auto simp: subseq_Cons2_iff dest: subseq_Cons')
  qed
qed

lemma subseq_set_subset: "subseq ys xs \<Longrightarrow> set ys \<subseteq> set xs"
  by (induction rule: list_emb.induct) auto

lemma subseq_distinct_filter:
  "subseq ys xs \<Longrightarrow> distinct xs \<Longrightarrow> ys = filter (\<lambda>x. x \<in> set ys) xs"
proof (induction rule: list_emb.induct)
  case (list_emb_Nil ys)
  then show ?case by simp
next
  case (list_emb_Cons xs ys y)
  then have "y \<notin> set xs" by (auto dest: subseq_set_subset) 
  with list_emb_Cons show ?case by auto
next
  case (list_emb_Cons2 x y xs ys)
  then have "filter (\<lambda>z. z \<in> set (x # xs)) ys = filter (\<lambda>z. z \<in> set xs) ys"
    by (intro filter_cong) auto
  with list_emb_Cons2 show ?case by auto
qed

lemma subseq_of_distinct: "subseq ys xs \<Longrightarrow> distinct xs \<Longrightarrow> distinct ys"
  using subseq_distinct_filter[of ys xs] distinct_filter[of xs "\<lambda>x. x \<in> set ys"] by simp

lemma distinct_combinations: "distinct xs \<Longrightarrow> distinct (combinations xs r)"
proof (induction xs r rule: combinations.induct)
  case (3 x xs r)
  have "\<And>ys. ys \<in> set (combinations xs (Suc r)) \<Longrightarrow> x \<notin> set ys"
    using 3(3) by (auto simp: in_combinations_iff dest: subseq_set_subset)
  moreover have "\<And>ys. ys \<in> set (map ((#) x) (combinations xs r)) \<Longrightarrow> x \<in> set ys"
    by auto
  ultimately have "set (map ((#) x) (combinations xs r)) \<inter> set (combinations xs (Suc r)) = {}"
    by blast
  with 3 show ?case by (simp add: distinct_map)
qed auto

lemma distinct_concat_by_length:
  "(\<And>r. distinct (f r)) \<Longrightarrow> (\<And>r ys. ys \<in> set (f r) \<Longrightarrow> length ys = r)
     \<Longrightarrow> distinct (concat (map f [m..<n]))"
proof (induction n)
  case 0
  then show ?case by simp
next
  case (Suc n)
  show ?case
  proof (cases "m \<le> n")
    case True
    have "distinct (concat (map f [m..<n]))" using Suc by blast
    moreover have "distinct (f n)" using Suc by blast
    moreover have "set (concat (map f [m..<n])) \<inter> set (f n) = {}"
    proof -
      have "length ys < n" if "ys \<in> set (concat (map f [m..<n]))" for ys
        using that Suc.prems(2) by auto
      moreover have "length ys = n" if "ys \<in> set (f n)" for ys
        using that Suc.prems(2) by auto
      ultimately show ?thesis by fastforce
    qed
    ultimately show ?thesis using True by (simp add: upt_Suc_append)
  next
    case False
    then show ?thesis by simp
  qed
qed

lemma is_independent_set_iff:
  assumes "distinct g"
  shows "is_independent_set fp g \<longleftrightarrow>
           (\<forall>a\<in>set g. \<forall>b\<in>set g. a \<noteq> b \<longrightarrow>
              dict_get fp (a, b) Independent = Independent
              \<and> dict_get fp (b, a) Independent = Independent)"
    (is "?L \<longleftrightarrow> ?R")
proof
  assume L: ?L
  have ord: "dict_get fp (g ! i, g ! j) Independent = Independent
           \<and> dict_get fp (g ! j, g ! i) Independent = Independent"
    if "i < j" "j < length g" for i j
    using L that by (auto simp: is_independent_set_def list_all_iff)
  show ?R
  proof (intro ballI impI)
    fix a b assume "a \<in> set g" "b \<in> set g" "a \<noteq> b"
    then obtain i j where ij: "i < length g" "j < length g" "g ! i = a" "g ! j = b"
      by (auto simp: in_set_conv_nth)
    with \<open>a \<noteq> b\<close> have "i < j \<or> j < i" by (cases i j rule: linorder_cases) auto
    then show "dict_get fp (a, b) Independent = Independent
             \<and> dict_get fp (b, a) Independent = Independent"
      using ord[of i j] ord[of j i] ij by auto
  qed
next
  assume R: ?R
  show ?L
    unfolding is_independent_set_def list_all_iff
  proof (intro ballI)
    fix i j assume "i \<in> set [0..<length g]" "j \<in> set [i + 1..<length g]"
    then have ij: "i < j" "j < length g" "i < length g" by auto
    with assms have "g ! i \<noteq> g ! j" by (simp add: nth_eq_iff_index_eq)
    with R ij show "\<not> (dict_get fp (g ! i, g ! j) Independent \<noteq> Independent
             \<or> dict_get fp (g ! j, g ! i) Independent \<noteq> Independent)"
      by auto
  qed
qed


lemma in_independent_sets_loop_iff:
  "g \<in> set (independent_sets_loop fp events)
     \<longleftrightarrow> g \<noteq> [] \<and> subseq g events \<and> is_independent_set fp g"
proof -
  have "subseq g events \<Longrightarrow> length g \<le> length events"
    by (rule list_emb_length)
  then show ?thesis
    by (auto simp: independent_sets_loop_def in_combinations_iff Suc_le_eq)
qed

lemma set_independent_sets_loop:
  assumes "distinct events"
  shows "set (map set (independent_sets_loop fp events))
           = {S. S \<noteq> {} \<and> S \<subseteq> set events \<and> pairwise_independent fp S}"
    (is "?L = ?R")
proof (intro equalityI subsetI)
  fix S assume "S \<in> ?L"
  then obtain g where g: "S = set g" "g \<noteq> []" "subseq g events" "is_independent_set fp g"
    by (auto simp: in_independent_sets_loop_iff)
  then have "distinct g" using assms subseq_of_distinct by blast
  with g show "S \<in> ?R"
    by (auto simp: is_independent_set_iff pairwise_independent_def dest: subseq_set_subset)
next
  fix S assume "S \<in> ?R"
  then have S: "S \<noteq> {}" "S \<subseteq> set events" "pairwise_independent fp S" by auto
  define g where "g = filter (\<lambda>x. x \<in> S) events"
  have sg: "set g = S" using S(2) by (auto simp: g_def)
  have "distinct g" using assms by (simp add: g_def)
  then have "is_independent_set fp g"
    using S(3) by (simp add: is_independent_set_iff sg pairwise_independent_def)
  moreover have "g \<noteq> []" using sg S(1) by auto
  moreover have "subseq g events" by (simp add: g_def)
  ultimately have "g \<in> set (independent_sets_loop fp events)"
    by (simp add: in_independent_sets_loop_iff)
  then show "S \<in> ?L" using sg by force
qed

lemma distinct_independent_sets_loop:
  assumes "distinct events"
  shows "distinct (map set (independent_sets_loop fp events))"
proof -
  have "distinct (independent_sets_loop fp events)"
    unfolding independent_sets_loop_def
    by (rule distinct_concat_by_length)
       (auto simp: assms distinct_combinations in_combinations_iff)
  moreover have "inj_on set (set (independent_sets_loop fp events))"
  proof (rule inj_onI)
    fix g h
    assume "g \<in> set (independent_sets_loop fp events)"
           "h \<in> set (independent_sets_loop fp events)" "set g = set h"
    then have "subseq g events" "subseq h events" "set g = set h"
      by (auto simp: in_independent_sets_loop_iff)
    then show "g = h"
      using subseq_distinct_filter[OF _ assms, of g] subseq_distinct_filter[OF _ assms, of h]
      by simp
  qed
  ultimately show ?thesis by (simp add: distinct_map)
qed

lemma set_events_of:
  "set (events_of fp) = fst ` fst ` set fp \<union> snd ` fst ` set fp"
  by (force simp: events_of_def dict_keys_def)

lemma independent_sets_any_order:
  "distinct events \<Longrightarrow> set events = set (events_of fp) \<Longrightarrow>
     set (map set (independent_sets_loop fp events)) = set (map set (find_independent_sets fp))"
  by (simp only: find_independent_sets_def set_independent_sets_loop distinct_remdups events_of_def)


lemma keys_create_footprint:
  "fst ` set (create_footprint df) = {(a, b). real_activity df a \<and> real_activity df b}"
proof -
  have "(a, b) \<in> fst ` set (create_footprint df) \<longleftrightarrow> real_activity df a \<and> real_activity df b"
    for a b
  proof -
    have "(a, b) \<in> fst ` set (create_footprint df)
            \<longleftrightarrow> map_of (create_footprint df) (a, b) \<noteq> None"
      by (simp add: map_of_eq_None_iff)
    then show ?thesis by (simp add: map_of_create_footprint)
  qed
  then show ?thesis by auto
qed

lemma occurring_create_footprint:
  "fst ` fst ` set (create_footprint df) \<union> snd ` fst ` set (create_footprint df)
     = {a. real_activity df a}"
  unfolding keys_create_footprint by force

lemma dict_get_create_footprint:
  "real_activity df a \<Longrightarrow> real_activity df b \<Longrightarrow>
     dict_get (create_footprint df) (a, b) Independent = Independent
       \<longleftrightarrow> map_of (create_footprint df) (a, b) = Some Independent"
  by (simp add: dict_get_def map_of_create_footprint)

text \<open>
  Claim C3. \<^verbatim>\<open>find_independent_sets\<close> returns exactly the non-empty sets of activities
  occurring in the footprint matrix whose distinct members are pairwise independent in both
  directions, each set once. For a footprint built by \<^verbatim>\<open>create_footprint\<close> every pair of
  occurring activities is a key, and these are the non-empty sets of real activities whose
  distinct members carry the independent symbol both ways (so a parallel or a causal pair
  disqualifies a set). Every singleton of an occurring activity is returned, and the empty
  footprint yields the empty list.
\<close>

theorem find_independent_sets_exact:
  "set (map set (find_independent_sets fp))
     = {S. S \<noteq> {} \<and> S \<subseteq> fst ` fst ` set fp \<union> snd ` fst ` set fp
           \<and> (\<forall>a\<in>S. \<forall>b\<in>S. a \<noteq> b \<longrightarrow>
                 dict_get fp (a, b) Independent = Independent
                 \<and> dict_get fp (b, a) Independent = Independent)}
   \<and> set (map set (find_independent_sets (create_footprint df)))
     = {S. S \<noteq> {} \<and> (\<forall>a\<in>S. real_activity df a)
           \<and> (\<forall>a\<in>S. \<forall>b\<in>S. a \<noteq> b \<longrightarrow>
                 map_of (create_footprint df) (a, b) = Some Independent
                 \<and> map_of (create_footprint df) (b, a) = Some Independent)}
   \<and> distinct (map set (find_independent_sets fp))
   \<and> (a \<in> fst ` fst ` set fp \<union> snd ` fst ` set fp
        \<longrightarrow> {a} \<in> set (map set (find_independent_sets fp)))
   \<and> find_independent_sets [] = []"
proof -
  have general: "set (map set (find_independent_sets fp'))
     = {S. S \<noteq> {} \<and> S \<subseteq> fst ` fst ` set fp' \<union> snd ` fst ` set fp'
           \<and> pairwise_independent fp' S}" for fp'
    unfolding find_independent_sets_def
  proof -
    have "distinct (events_of fp')" by (simp add: events_of_def)
    then show "set (map set (independent_sets_loop fp' (events_of fp')))
      = {S. S \<noteq> {} \<and> S \<subseteq> fst ` fst ` set fp' \<union> snd ` fst ` set fp'
           \<and> pairwise_independent fp' S}"
      by (simp only: set_independent_sets_loop set_events_of)
  qed
  have created: "set (map set (find_independent_sets (create_footprint df)))
     = {S. S \<noteq> {} \<and> (\<forall>a\<in>S. real_activity df a)
           \<and> (\<forall>a\<in>S. \<forall>b\<in>S. a \<noteq> b \<longrightarrow>
                 map_of (create_footprint df) (a, b) = Some Independent
                 \<and> map_of (create_footprint df) (b, a) = Some Independent)}"
  proof -
    have "pairwise_independent (create_footprint df) S
            \<longleftrightarrow> (\<forall>a\<in>S. \<forall>b\<in>S. a \<noteq> b \<longrightarrow>
                 map_of (create_footprint df) (a, b) = Some Independent
                 \<and> map_of (create_footprint df) (b, a) = Some Independent)"
      if "\<forall>a\<in>S. real_activity df a" for S
      unfolding pairwise_independent_def
      using that dict_get_create_footprint[of df] by meson
    then show ?thesis
      unfolding general occurring_create_footprint by blast
  qed
  have dist: "distinct (map set (find_independent_sets fp))"
    unfolding find_independent_sets_def
    by (rule distinct_independent_sets_loop) (simp add: events_of_def)
  have single: "a \<in> fst ` fst ` set fp \<union> snd ` fst ` set fp
        \<longrightarrow> {a} \<in> set (map set (find_independent_sets fp))"
    unfolding general by (simp add: pairwise_independent_def)
  have empty: "find_independent_sets [] = []"
    by (simp add: find_independent_sets_def independent_sets_loop_def events_of_def dict_keys_def)
  show ?thesis
    using general[of fp] created dist single empty
    unfolding pairwise_independent_def by blast
qed

theorem find_independent_sets_exact_witness:
  "''a'' \<in> fst ` fst ` set [((''a'', ''b''), Independent), ((''b'', ''c''), Parallel)]
            \<union> snd ` fst ` set [((''a'', ''b''), Independent), ((''b'', ''c''), Parallel)]
   \<and> {''a''} \<in> set (map set (find_independent_sets
                        [((''a'', ''b''), Independent), ((''b'', ''c''), Parallel)]))"
  using find_independent_sets_exact
          [of "[((''a'', ''b''), Independent), ((''b'', ''c''), Parallel)]" "[]" "''a''"]
  by simp

subsection \<open>Transitions between independent sets\<close>

lemma record_transition_alt:
  "record_transition fp c T
     = (case transition_of fp c of None \<Rightarrow> T | Some (k, v) \<Rightarrow> AList.update k v T)"
  by (simp add: record_transition_def transition_of_def Let_def split: list.splits)

lemma fold_writes_none:
  "(\<And>c v. c \<in> set cs \<Longrightarrow> w c \<noteq> Some (k, v)) \<Longrightarrow>
     map_of (fold (\<lambda>c T. case w c of None \<Rightarrow> T | Some (k', v) \<Rightarrow> AList.update k' v T) cs acc) k
       = map_of acc k"
proof (induction cs arbitrary: acc)
  case Nil
  then show ?case by simp
next
  case (Cons c cs)
  have "map_of (case w c of None \<Rightarrow> acc | Some (k', v) \<Rightarrow> AList.update k' v acc) k = map_of acc k"
    using Cons.prems[of c] by (auto simp: update_conv' split: option.splits)
  with Cons show ?case by simp
qed

lemma fold_writes_some:
  "c \<in> set cs \<Longrightarrow> w c = Some (k, v)
     \<Longrightarrow> \<forall>c'\<in>set cs. \<forall>v'. w c' = Some (k, v') \<longrightarrow> v' = v
     \<Longrightarrow> map_of (fold (\<lambda>c T. case w c of None \<Rightarrow> T | Some (k', v) \<Rightarrow> AList.update k' v T) cs acc) k
       = Some v"
proof (induction cs arbitrary: acc c)
  case Nil
  then show ?case by simp
next
  case (Cons c' cs)
  define step where "step = (\<lambda>c T. case w c of None \<Rightarrow> T | Some (k', v) \<Rightarrow> AList.update k' v T)"
  have agree: "\<forall>d\<in>set cs. \<forall>u. w d = Some (k, u) \<longrightarrow> u = v"
    using Cons.prems(3) by simp
  show ?case
  proof (cases "\<exists>d\<in>set cs. \<exists>u. w d = Some (k, u)")
    case True
    then obtain d u where d: "d \<in> set cs" "w d = Some (k, u)" by blast
    then have "w d = Some (k, v)" using agree by blast
    then have "map_of (fold step cs (step c' acc)) k = Some v"
      unfolding step_def by (rule Cons.IH[OF d(1) _ agree])
    then show ?thesis by (simp add: step_def)
  next
    case False
    then have none: "\<And>d u. d \<in> set cs \<Longrightarrow> w d \<noteq> Some (k, u)" by blast
    have "map_of (fold step cs (step c' acc)) k = map_of (step c' acc) k"
      unfolding step_def by (rule fold_writes_none) (rule none)
    moreover have "c = c'" using none Cons.prems(1,2) by auto
    then have "map_of (step c' acc) k = Some v"
      using Cons.prems(2) by (simp add: step_def update_conv')
    ultimately show ?thesis by (simp add: step_def)
  qed
qed

lemma combinations_1: "combinations xs (Suc 0) = map (\<lambda>x. [x]) xs"
  by (induction xs) auto

lemma combinations_2_Cons:
  "combinations (x # xs) 2 = map (\<lambda>y. [x, y]) xs @ combinations xs 2"
  by (simp add: numeral_2_eq_2 combinations_1)

lemma combinations_2_Nil: "combinations [] 2 = []"
  by (simp add: numeral_2_eq_2)

lemma in_combinations_2_iff:
  "c \<in> set (combinations xs 2) \<longleftrightarrow> (\<exists>i j. i < j \<and> j < length xs \<and> c = [xs ! i, xs ! j])"
proof (induction xs)
  case Nil
  then show ?case by (simp add: combinations_2_Nil)
next
  case (Cons x xs)
  show ?case
  proof
    assume "c \<in> set (combinations (x # xs) 2)"
    then consider y where "y \<in> set xs" "c = [x, y]" | "c \<in> set (combinations xs 2)"
      by (auto simp: combinations_2_Cons)
    then show "\<exists>i j. i < j \<and> j < length (x # xs) \<and> c = [(x # xs) ! i, (x # xs) ! j]"
    proof cases
      case 1
      then obtain k where "k < length xs" "xs ! k = y" by (auto simp: in_set_conv_nth)
      with 1 have "0 < Suc k \<and> Suc k < length (x # xs) \<and> c = [(x # xs) ! 0, (x # xs) ! Suc k]"
        by simp
      then show ?thesis by blast
    next
      case 2
      then obtain i j where "i < j" "j < length xs" "c = [xs ! i, xs ! j]"
        using Cons.IH by blast
      then have "Suc i < Suc j \<and> Suc j < length (x # xs) \<and> c = [(x # xs) ! Suc i, (x # xs) ! Suc j]"
        by simp
      then show ?thesis by blast
    qed
  next
    assume "\<exists>i j. i < j \<and> j < length (x # xs) \<and> c = [(x # xs) ! i, (x # xs) ! j]"
    then obtain i j where ij: "i < j" "j < length (x # xs)" "c = [(x # xs) ! i, (x # xs) ! j]"
      by blast
    then obtain j' where j': "j = Suc j'" by (cases j) auto
    show "c \<in> set (combinations (x # xs) 2)"
    proof (cases i)
      case 0
      with ij j' show ?thesis by (simp add: combinations_2_Cons)
    next
      case (Suc i')
      with ij j' have "i' < j' \<and> j' < length xs \<and> c = [xs ! i', xs ! j']" by simp
      then have "c \<in> set (combinations xs 2)" using Cons.IH by blast
      then show ?thesis by (simp add: combinations_2_Cons)
    qed
  qed
qed

lemma check_relationship_Some_iff:
  "check_relationship fp A B = Some s
     \<longleftrightarrow> A \<noteq> [] \<and> B \<noteq> [] \<and> cross_relation fp A B s"
proof -
  define L where "L = concat (map (\<lambda>a. map (\<lambda>b. map_of fp (a, b)) B) A)"
  have setL: "set L = (\<lambda>(a, b). map_of fp (a, b)) ` (set A \<times> set B)"
    by (auto simp: L_def)
  have one: "(if length (remdups L) = 1 then hd (remdups L) else None) = Some s
               \<longleftrightarrow> set L = {Some s}"
  proof
    assume a: "(if length (remdups L) = 1 then hd (remdups L) else None) = Some s"
    then have "length (remdups L) = 1" by (auto split: if_splits)
    then obtain x where x: "remdups L = [x]" by (cases "remdups L") auto
    then have "set (remdups L) = {x}" by simp
    then have "set L = {x}" by simp
    with a x show "set L = {Some s}" by simp
  next
    assume a: "set L = {Some s}"
    then have "length (remdups L) = 1" by (simp add: length_remdups_card_conv)
    then obtain x where x: "remdups L = [x]" by (cases "remdups L") auto
    then have "set (remdups L) = {x}" by simp
    then have "set L = {x}" by simp
    with a x show "(if length (remdups L) = 1 then hd (remdups L) else None) = Some s" by simp
  qed
  have img: "f ` S = {c} \<longleftrightarrow> S \<noteq> {} \<and> (\<forall>x\<in>S. f x = c)"
    for f :: "activity \<times> activity \<Rightarrow> relation option" and S c
    by auto
  have "set A \<times> set B \<noteq> {} \<longleftrightarrow> A \<noteq> [] \<and> B \<noteq> []"
    by auto
  moreover have "(\<forall>x\<in>set A \<times> set B. (case x of (a, b) \<Rightarrow> map_of fp (a, b)) = Some s)
                   \<longleftrightarrow> cross_relation fp A B s"
    by (auto simp: cross_relation_def list_all_iff)
  ultimately have "set L = {Some s} \<longleftrightarrow> A \<noteq> [] \<and> B \<noteq> [] \<and> cross_relation fp A B s"
    unfolding setL img by blast
  with one show ?thesis by (simp add: check_relationship_def L_def[symmetric] Let_def)
qed


lemma find_transitions_fold:
  "find_transitions fp sets
     = fold (\<lambda>c T. case transition_of fp c of None \<Rightarrow> T | Some (k, v) \<Rightarrow> AList.update k v T)
            (combinations sets 2) []"
  unfolding find_transitions_def by (rule arg_cong[where f = "\<lambda>f. fold f _ _"]) (rule ext, rule ext, rule record_transition_alt)

lemma transition_of_pair:
  "transition_of fp [X, Y] = Some (k, v) \<longleftrightarrow>
     (k = (X, Y) \<and> check_relationship fp X Y = Some v \<and> (v = CausalForward \<or> v = Parallel))
     \<or> (k = (Y, X) \<and> check_relationship fp X Y = Some CausalBackward \<and> v = CausalForward)"
  by (auto simp: transition_of_def Let_def)

lemma writers_forward:
  assumes "distinct sets" "i < j" "j < length sets"
    and "c \<in> set (combinations sets 2)" "transition_of fp c = Some ((sets ! i, sets ! j), v)"
  shows "c = [sets ! i, sets ! j] \<and> check_relationship fp (sets ! i) (sets ! j) = Some v
         \<and> (v = CausalForward \<or> v = Parallel)"
proof -
  obtain i' j' where c: "i' < j'" "j' < length sets" "c = [sets ! i', sets ! j']"
    using assms(4) by (auto simp: in_combinations_2_iff)
  have eq: "sets ! a = sets ! b \<longleftrightarrow> a = b" if "a < length sets" "b < length sets" for a b
    using that assms(1) by (simp add: nth_eq_iff_index_eq)
  from assms(5) c consider
      "sets ! i' = sets ! i" "sets ! j' = sets ! j"
        "check_relationship fp (sets ! i') (sets ! j') = Some v" "v = CausalForward \<or> v = Parallel"
    | "sets ! j' = sets ! i" "sets ! i' = sets ! j"
    by (auto simp: transition_of_pair)
  then show ?thesis
  proof cases
    case 1
    then have "i' = i" "j' = j" using eq c assms(2,3) by auto
    with 1 c show ?thesis by simp
  next
    case 2
    then have "j' = i" "i' = j" using eq c assms(2,3) by auto
    with c assms(2) show ?thesis by simp
  qed
qed

lemma writers_backward:
  assumes "distinct sets" "i < j" "j < length sets"
    and "c \<in> set (combinations sets 2)" "transition_of fp c = Some ((sets ! j, sets ! i), v)"
  shows "c = [sets ! i, sets ! j]
         \<and> check_relationship fp (sets ! i) (sets ! j) = Some CausalBackward \<and> v = CausalForward"
proof -
  obtain i' j' where c: "i' < j'" "j' < length sets" "c = [sets ! i', sets ! j']"
    using assms(4) by (auto simp: in_combinations_2_iff)
  have eq: "sets ! a = sets ! b \<longleftrightarrow> a = b" if "a < length sets" "b < length sets" for a b
    using that assms(1) by (simp add: nth_eq_iff_index_eq)
  from assms(5) c consider
      "sets ! i' = sets ! j" "sets ! j' = sets ! i"
    | "sets ! j' = sets ! j" "sets ! i' = sets ! i"
        "check_relationship fp (sets ! i') (sets ! j') = Some CausalBackward" "v = CausalForward"
    by (auto simp: transition_of_pair)
  then show ?thesis
  proof cases
    case 1
    then have "i' = j" "j' = i" using eq c assms(2,3) by auto
    with c assms(2) show ?thesis by simp
  next
    case 2
    then have "i' = i" "j' = j" using eq c assms(2,3) by auto
    with 2 c show ?thesis by simp
  qed
qed

lemma find_transitions_forward:
  assumes "distinct sets" "i < j" "j < length sets"
  shows "map_of (find_transitions fp sets) (sets ! i, sets ! j)
           = (if check_relationship fp (sets ! i) (sets ! j) = Some CausalForward
                 \<or> check_relationship fp (sets ! i) (sets ! j) = Some Parallel
              then check_relationship fp (sets ! i) (sets ! j) else None)"
proof (cases "check_relationship fp (sets ! i) (sets ! j) = Some CausalForward
                 \<or> check_relationship fp (sets ! i) (sets ! j) = Some Parallel")
  case True
  then obtain v where v: "check_relationship fp (sets ! i) (sets ! j) = Some v"
      "v = CausalForward \<or> v = Parallel" by auto
  have in_cs: "[sets ! i, sets ! j] \<in> set (combinations sets 2)"
    using assms by (auto simp: in_combinations_2_iff)
  have w: "transition_of fp [sets ! i, sets ! j] = Some ((sets ! i, sets ! j), v)"
    using v by (simp add: transition_of_pair)
  have "\<forall>c'\<in>set (combinations sets 2). \<forall>v'.
          transition_of fp c' = Some ((sets ! i, sets ! j), v') \<longrightarrow> v' = v"
    using writers_forward[OF assms] v by fastforce
  then have "map_of (find_transitions fp sets) (sets ! i, sets ! j) = Some v"
    unfolding find_transitions_fold by (rule fold_writes_some[where w = "transition_of fp", OF in_cs w])
  with v True show ?thesis by simp
next
  case False
  have "\<And>c v. c \<in> set (combinations sets 2)
          \<Longrightarrow> transition_of fp c \<noteq> Some ((sets ! i, sets ! j), v)"
    using writers_forward[OF assms] False by blast
  then have "map_of (find_transitions fp sets) (sets ! i, sets ! j) = map_of [] (sets ! i, sets ! j)"
    unfolding find_transitions_fold by (rule fold_writes_none[where w = "transition_of fp"])
  with False show ?thesis by simp
qed

lemma find_transitions_backward:
  assumes "distinct sets" "i < j" "j < length sets"
  shows "map_of (find_transitions fp sets) (sets ! j, sets ! i)
           = (if check_relationship fp (sets ! i) (sets ! j) = Some CausalBackward
              then Some CausalForward else None)"
proof (cases "check_relationship fp (sets ! i) (sets ! j) = Some CausalBackward")
  case True
  have in_cs: "[sets ! i, sets ! j] \<in> set (combinations sets 2)"
    using assms by (auto simp: in_combinations_2_iff)
  have w: "transition_of fp [sets ! i, sets ! j] = Some ((sets ! j, sets ! i), CausalForward)"
    using True by (simp add: transition_of_pair)
  have "\<forall>c'\<in>set (combinations sets 2). \<forall>v'.
          transition_of fp c' = Some ((sets ! j, sets ! i), v') \<longrightarrow> v' = CausalForward"
    using writers_backward[OF assms] by blast
  then have "map_of (find_transitions fp sets) (sets ! j, sets ! i) = Some CausalForward"
    unfolding find_transitions_fold by (rule fold_writes_some[where w = "transition_of fp", OF in_cs w])
  with True show ?thesis by simp
next
  case False
  have "\<And>c v. c \<in> set (combinations sets 2)
          \<Longrightarrow> transition_of fp c \<noteq> Some ((sets ! j, sets ! i), v)"
    using writers_backward[OF assms] False by blast
  then have "map_of (find_transitions fp sets) (sets ! j, sets ! i) = map_of [] (sets ! j, sets ! i)"
    unfolding find_transitions_fold by (rule fold_writes_none[where w = "transition_of fp"])
  with False show ?thesis by simp
qed


lemma fold_writes_origin:
  "map_of (fold (\<lambda>c T. case w c of None \<Rightarrow> T | Some (k', v) \<Rightarrow> AList.update k' v T) cs acc) k = Some v
     \<Longrightarrow> map_of acc k = Some v \<or> (\<exists>c\<in>set cs. w c = Some (k, v))"
proof (induction cs arbitrary: acc)
  case Nil
  then show ?case by simp
next
  case (Cons c cs)
  define acc' where "acc' = (case w c of None \<Rightarrow> acc | Some (k', v) \<Rightarrow> AList.update k' v acc)"
  from Cons.prems have "map_of acc' k = Some v \<or> (\<exists>c\<in>set cs. w c = Some (k, v))"
    unfolding acc'_def by (intro Cons.IH) simp
  moreover have "map_of acc' k = Some v \<Longrightarrow> map_of acc k = Some v \<or> w c = Some (k, v)"
    unfolding acc'_def by (auto simp: update_conv' split: option.splits if_splits)
  ultimately show ?case by auto
qed

lemma find_transitions_keys:
  assumes "map_of (find_transitions fp sets) (X, Y) = Some r"
  shows "\<exists>i j. i < j \<and> j < length sets
           \<and> ((X, Y) = (sets ! i, sets ! j) \<or> (X, Y) = (sets ! j, sets ! i))"
proof -
  from assms obtain c where c: "c \<in> set (combinations sets 2)" "transition_of fp c = Some ((X, Y), r)"
    unfolding find_transitions_fold
    using fold_writes_origin[where w = "transition_of fp" and acc = "[]"] by fastforce
  then obtain i j where ij: "i < j" "j < length sets" "c = [sets ! i, sets ! j]"
    by (auto simp: in_combinations_2_iff)
  with c(2) have "(X, Y) = (sets ! i, sets ! j) \<or> (X, Y) = (sets ! j, sets ! i)"
    by (auto simp: transition_of_pair)
  with ij show ?thesis by blast
qed

lemma find_independent_sets_wellformed:
  "[] \<notin> set (find_independent_sets fp) \<and> distinct (map set (find_independent_sets fp))"
  unfolding find_independent_sets_def
  by (simp add: in_independent_sets_loop_iff distinct_independent_sets_loop events_of_def)

text \<open>
  Claim C4. Let the independent sets be distinct and non-empty, and let \<open>A\<close> come before
  \<open>B\<close> in the list (every unordered pair of distinct sets is visited once, in this
  orientation, and no set is paired with itself). If every cross pair carries
  causal-forward, or every cross pair carries parallel, the transition \<open>(A, B)\<close> is recorded
  with that symbol; if every cross pair carries causal-backward, the reversed transition
  \<open>(B, A)\<close> is recorded as causal-forward; in every other case (mixed symbols, or all
  independent) neither \<open>(A, B)\<close> nor \<open>(B, A)\<close> is recorded. Nothing else is recorded.
\<close>

theorem find_transitions_rule:
  assumes "[] \<notin> set independent_sets" and "distinct (map set independent_sets)"
    and "i < j" and "j < length independent_sets"
    and "A = independent_sets ! i" and "B = independent_sets ! j"
    and "T = map_of (find_transitions fp independent_sets)"
  shows "set A \<noteq> set B
     \<and> (cross_relation fp A B CausalForward \<longrightarrow> T (A, B) = Some CausalForward \<and> T (B, A) = None)
     \<and> (cross_relation fp A B Parallel \<longrightarrow> T (A, B) = Some Parallel \<and> T (B, A) = None)
     \<and> (cross_relation fp A B CausalBackward \<longrightarrow> T (B, A) = Some CausalForward \<and> T (A, B) = None)
     \<and> (\<not> cross_relation fp A B CausalForward \<and> \<not> cross_relation fp A B Parallel
          \<and> \<not> cross_relation fp A B CausalBackward \<longrightarrow> T (A, B) = None \<and> T (B, A) = None)
     \<and> (\<forall>X Y. T (X, Y) \<noteq> None \<longrightarrow>
           (\<exists>i' j'. i' < j' \<and> j' < length independent_sets
              \<and> ((X, Y) = (independent_sets ! i', independent_sets ! j')
                   \<or> (X, Y) = (independent_sets ! j', independent_sets ! i'))))"
proof -
  have d: "distinct independent_sets"
    using assms(2) by (simp add: distinct_map)
  have ne: "A \<noteq> []" "B \<noteq> []"
    using assms(1,3,4,5,6) by (metis nth_mem order.strict_trans)+
  have differ: "set A \<noteq> set B"
    using assms(2,3,4,5,6) by (simp add: distinct_conv_nth)
  have chk: "check_relationship fp A B = Some s \<longleftrightarrow> cross_relation fp A B s" for s
    using ne by (simp add: check_relationship_Some_iff)
  have fwd: "T (A, B) = (if cross_relation fp A B CausalForward \<or> cross_relation fp A B Parallel
                         then check_relationship fp A B else None)"
    unfolding assms(5,6,7) find_transitions_forward[OF d assms(3,4)]
    using chk[unfolded assms(5,6)] by simp
  have bwd: "T (B, A) = (if cross_relation fp A B CausalBackward then Some CausalForward else None)"
    unfolding assms(5,6,7) find_transitions_backward[OF d assms(3,4)]
    using chk[unfolded assms(5,6)] by simp
  have excl: "cross_relation fp A B s \<Longrightarrow> cross_relation fp A B s' \<Longrightarrow> s = s'" for s s'
    using chk by (metis option.inject)
  have keys: "\<forall>X Y. T (X, Y) \<noteq> None \<longrightarrow>
           (\<exists>i' j'. i' < j' \<and> j' < length independent_sets
              \<and> ((X, Y) = (independent_sets ! i', independent_sets ! j')
                   \<or> (X, Y) = (independent_sets ! j', independent_sets ! i')))"
    unfolding assms(7) using find_transitions_keys by blast
  have c1: "cross_relation fp A B CausalForward \<longrightarrow> T (A, B) = Some CausalForward \<and> T (B, A) = None"
    using fwd bwd chk excl[of CausalForward CausalBackward] by auto
  have c2: "cross_relation fp A B Parallel \<longrightarrow> T (A, B) = Some Parallel \<and> T (B, A) = None"
    using fwd bwd chk excl[of Parallel CausalBackward] by auto
  have c3: "cross_relation fp A B CausalBackward \<longrightarrow> T (B, A) = Some CausalForward \<and> T (A, B) = None"
    using fwd bwd excl[of CausalBackward CausalForward] excl[of CausalBackward Parallel] by auto
  have c4: "\<not> cross_relation fp A B CausalForward \<and> \<not> cross_relation fp A B Parallel
          \<and> \<not> cross_relation fp A B CausalBackward \<longrightarrow> T (A, B) = None \<and> T (B, A) = None"
    using fwd bwd by simp
  show ?thesis using differ c1 c2 c3 c4 keys by blast
qed

theorem find_transitions_rule_witness:
  "map_of (find_transitions
             [((''a'', ''b''), CausalForward), ((''b'', ''a''), CausalBackward)]
             [[''a''], [''b'']]) ([''a''], [''b'']) = Some CausalForward
   \<and> map_of (find_transitions
             [((''a'', ''b''), CausalForward), ((''b'', ''a''), CausalBackward)]
             [[''a''], [''b'']]) ([''b''], [''a'']) = None"
proof -
  have h1: "[] \<notin> set [[''a''], [''b'']]" by simp
  have h2: "distinct (map set [[''a''], [''b'']])" by simp
  have h3: "(0::nat) < 1" by simp
  have h4: "(1::nat) < length [[''a''], [''b'']]" by simp
  have h5: "[''a''] = [[''a''], [''b'']] ! 0" by simp
  have h6: "[''b''] = [[''a''], [''b'']] ! 1" by simp
  show ?thesis
    using find_transitions_rule[OF h1 h2 h3 h4 h5 h6 refl,
            of "[((''a'', ''b''), CausalForward), ((''b'', ''a''), CausalBackward)]"]
    by (simp add: cross_relation_def)
qed

subsection \<open>The directly-follows relation\<close>

lemma process_trace_edges:
  "process_trace se ee t m df =
     (if \<not> isinstance_int (get_count m) then Inl (ValueError t (get_count m))
      else if t = [] then Inl IndexError
      else Inr (fold (\<lambda>e. add_edge e (int_value (get_count m))) (trace_edges se ee t) df))"
  by (simp add: process_trace_def trace_edges_def Let_def fold_map comp_def)

lemma weight_add_edge:
  "dict_get (add_edge e q df) k 0 = dict_get df k 0 + (if k = e then q else 0)"
  by (simp add: add_edge_def dict_get_def update_conv')

lemma keys_add_edge: "fst ` set (add_edge e q df) = insert e (fst ` set df)"
  by (simp add: add_edge_def dom_update)

lemma distinct_add_edge: "distinct (map fst df) \<Longrightarrow> distinct (map fst (add_edge e q df))"
  by (simp add: add_edge_def distinct_update)

lemma weight_fold_add_edge:
  "dict_get (fold (\<lambda>e. add_edge e q) es df) k 0 = dict_get df k 0 + q * int (count_list es k)"
  by (induction es arbitrary: df) (auto simp: weight_add_edge algebra_simps)

lemma keys_fold_add_edge:
  "fst ` set (fold (\<lambda>e. add_edge e q) es df) = set es \<union> fst ` set df"
  by (induction es arbitrary: df) (auto simp: keys_add_edge)

lemma distinct_fold_add_edge:
  "distinct (map fst df) \<Longrightarrow> distinct (map fst (fold (\<lambda>e. add_edge e q) es df))"
  by (induction es arbitrary: df) (auto simp: distinct_add_edge)

lemma loop_append:
  "directly_follows_loop se ee (xs @ ys) df =
     (case directly_follows_loop se ee xs df of
        Inl e \<Rightarrow> Inl e | Inr df' \<Rightarrow> directly_follows_loop se ee ys df')"
  by (induction xs arbitrary: df) (auto split: sum.splits)

lemma loop_accepted:
  "\<forall>entry\<in>set td. accepted entry \<Longrightarrow> \<exists>df'. directly_follows_loop se ee td df = Inr df'"
  by (induction td arbitrary: df) (auto simp: accepted_def process_trace_edges)

lemma loop_success_accepted:
  "directly_follows_loop se ee td df = Inr df' \<Longrightarrow> \<forall>entry\<in>set td. accepted entry"
proof (induction td arbitrary: df)
  case Nil
  then show ?case by simp
next
  case (Cons entry td)
  obtain t m where entry: "entry = (t, m)" by (cases entry)
  from Cons.prems obtain df1 where
    df1: "process_trace se ee t m df = Inr df1" "directly_follows_loop se ee td df1 = Inr df'"
    by (auto simp: entry split: sum.splits)
  from df1(1) have "accepted entry"
    by (auto simp: entry accepted_def process_trace_edges split: if_splits)
  with Cons.IH[OF df1(2)] show ?case by simp
qed

lemma loop_weights:
  "directly_follows_loop se ee td df = Inr df' \<Longrightarrow>
     dict_get df' k 0
       = dict_get df k 0
         + (\<Sum>(t, m)\<leftarrow>td. int_value (get_count m) * int (count_list (trace_edges se ee t) k))"
proof (induction td arbitrary: df)
  case Nil
  then show ?case by simp
next
  case (Cons entry td)
  obtain t m where entry: "entry = (t, m)" by (cases entry)
  from Cons.prems obtain df1 where
    df1: "process_trace se ee t m df = Inr df1" "directly_follows_loop se ee td df1 = Inr df'"
    by (auto simp: entry split: sum.splits)
  from df1(1) have "df1 = fold (\<lambda>e. add_edge e (int_value (get_count m))) (trace_edges se ee t) df"
    by (auto simp: process_trace_edges split: if_splits)
  then have "dict_get df1 k 0
      = dict_get df k 0 + int_value (get_count m) * int (count_list (trace_edges se ee t) k)"
    by (simp add: weight_fold_add_edge)
  with Cons.IH[OF df1(2)] show ?case by (simp add: entry)
qed

lemma loop_keys:
  "directly_follows_loop se ee td df = Inr df' \<Longrightarrow>
     fst ` set df' = fst ` set df \<union> (\<Union>(t, m)\<in>set td. set (trace_edges se ee t))"
proof (induction td arbitrary: df)
  case Nil
  then show ?case by simp
next
  case (Cons entry td)
  obtain t m where entry: "entry = (t, m)" by (cases entry)
  from Cons.prems obtain df1 where
    df1: "process_trace se ee t m df = Inr df1" "directly_follows_loop se ee td df1 = Inr df'"
    by (auto simp: entry split: sum.splits)
  from df1(1) have "df1 = fold (\<lambda>e. add_edge e (int_value (get_count m))) (trace_edges se ee t) df"
    by (auto simp: process_trace_edges split: if_splits)
  then have "fst ` set df1 = set (trace_edges se ee t) \<union> fst ` set df"
    by (simp add: keys_fold_add_edge)
  with Cons.IH[OF df1(2)] show ?case by (auto simp: entry)
qed

lemma loop_distinct:
  "directly_follows_loop se ee td df = Inr df' \<Longrightarrow> distinct (map fst df)
     \<Longrightarrow> distinct (map fst df')"
proof (induction td arbitrary: df)
  case Nil
  then show ?case by simp
next
  case (Cons entry td)
  obtain t m where entry: "entry = (t, m)" by (cases entry)
  from Cons.prems obtain df1 where
    df1: "process_trace se ee t m df = Inr df1" "directly_follows_loop se ee td df1 = Inr df'"
    by (auto simp: entry split: sum.splits)
  from df1(1) have "df1 = fold (\<lambda>e. add_edge e (int_value (get_count m))) (trace_edges se ee t) df"
    by (auto simp: process_trace_edges split: if_splits)
  then have "distinct (map fst df1)"
    using Cons.prems(2) by (simp add: distinct_fold_add_edge)
  with Cons.IH[OF df1(2)] show ?case .
qed


lemma get_count_not_int_iff:
  "\<not> isinstance_int (get_count m) \<longleftrightarrow> (\<exists>v. count m = Some v \<and> \<not> isinstance_int v)"
  by (auto simp: get_count_def split: option.splits)

lemma loop_error_split:
  "directly_follows_loop se ee td df = Inl e \<Longrightarrow>
     \<exists>pre t m post. td = pre @ (t, m) # post \<and> (\<forall>entry\<in>set pre. accepted entry)
        \<and> \<not> accepted (t, m)
        \<and> e = (if \<not> isinstance_int (get_count m) then ValueError t (get_count m) else IndexError)"
proof (induction td arbitrary: df)
  case Nil
  then show ?case by simp
next
  case (Cons entry td)
  obtain t m where entry: "entry = (t, m)" by (cases entry)
  show ?case
  proof (cases "process_trace se ee t m df")
    case (Inl e')
    with Cons.prems have "e = e'" by (simp add: entry)
    with Inl have "\<not> accepted (t, m)
        \<and> e = (if \<not> isinstance_int (get_count m) then ValueError t (get_count m) else IndexError)"
      by (auto simp: process_trace_edges accepted_def split: if_splits)
    then have "entry # td = [] @ (t, m) # td \<and> (\<forall>entry\<in>set []. accepted entry)
        \<and> \<not> accepted (t, m)
        \<and> e = (if \<not> isinstance_int (get_count m) then ValueError t (get_count m) else IndexError)"
      by (simp add: entry)
    then show ?thesis by blast
  next
    case (Inr df1)
    then have acc: "accepted entry"
      by (auto simp: entry accepted_def process_trace_edges split: if_splits)
    from Inr Cons.prems have "directly_follows_loop se ee td df1 = Inl e" by (simp add: entry)
    from Cons.IH[OF this] obtain pre t' m' post where
      p: "td = pre @ (t', m') # post" "\<forall>entry\<in>set pre. accepted entry" "\<not> accepted (t', m')"
         "e = (if \<not> isinstance_int (get_count m') then ValueError t' (get_count m') else IndexError)"
      by blast
    then have "entry # td = (entry # pre) @ (t', m') # post
        \<and> (\<forall>entry\<in>set (entry # pre). accepted entry) \<and> \<not> accepted (t', m')
        \<and> e = (if \<not> isinstance_int (get_count m') then ValueError t' (get_count m') else IndexError)"
      using acc by simp
    then show ?thesis by blast
  qed
qed

lemma loop_error_at:
  assumes "\<forall>entry\<in>set pre. accepted entry" "\<not> isinstance_int (get_count m)"
  shows "directly_follows_loop se ee (pre @ (t, m) # post) df = Inl (ValueError t (get_count m))"
proof -
  obtain df' where "directly_follows_loop se ee pre df = Inr df'"
    using loop_accepted[OF assms(1)] by blast
  then show ?thesis
    using assms(2) by (simp add: loop_append process_trace_edges)
qed

lemma loop_ValueError_iff:
  "directly_follows_loop se ee td df = Inl (ValueError t v)
     \<longleftrightarrow> (\<exists>pre m post. td = pre @ (t, m) # post \<and> (\<forall>entry\<in>set pre. accepted entry)
            \<and> count m = Some v \<and> \<not> isinstance_int v)"
proof
  assume "directly_follows_loop se ee td df = Inl (ValueError t v)"
  from loop_error_split[OF this] obtain pre t' m post where
    p: "td = pre @ (t', m) # post" "\<forall>entry\<in>set pre. accepted entry"
       "ValueError t v = (if \<not> isinstance_int (get_count m) then ValueError t' (get_count m) else IndexError)"
    by blast
  from p(3) have "\<not> isinstance_int (get_count m)" "t' = t" "get_count m = v"
    by (auto split: if_splits)
  moreover from this have "count m = Some v"
    by (auto simp: get_count_def split: option.splits)
  ultimately show "\<exists>pre m post. td = pre @ (t, m) # post \<and> (\<forall>entry\<in>set pre. accepted entry)
            \<and> count m = Some v \<and> \<not> isinstance_int v"
    using p(1,2) by blast
next
  assume "\<exists>pre m post. td = pre @ (t, m) # post \<and> (\<forall>entry\<in>set pre. accepted entry)
            \<and> count m = Some v \<and> \<not> isinstance_int v"
  then obtain pre m post where
    p: "td = pre @ (t, m) # post" "\<forall>entry\<in>set pre. accepted entry"
       "count m = Some v" "\<not> isinstance_int v"
    by blast
  then have "get_count m = v" by (simp add: get_count_def)
  with p loop_error_at[OF p(2), of m se ee t post df] show
    "directly_follows_loop se ee td df = Inl (ValueError t v)" by simp
qed

lemma loop_fails_iff:
  "(\<exists>e. directly_follows_loop se ee td df = Inl e) \<longleftrightarrow> (\<exists>entry\<in>set td. \<not> accepted entry)"
proof
  assume "\<exists>e. directly_follows_loop se ee td df = Inl e"
  then show "\<exists>entry\<in>set td. \<not> accepted entry"
    using loop_accepted[of td se ee df] by fastforce
next
  assume "\<exists>entry\<in>set td. \<not> accepted entry"
  then have "\<nexists>df'. directly_follows_loop se ee td df = Inr df'"
    using loop_success_accepted by blast
  then show "\<exists>e. directly_follows_loop se ee td df = Inl e"
    by (cases "directly_follows_loop se ee td df") auto
qed

text \<open>
  Claim C6, amended. \<^verbatim>\<open>compute_directly_follows\<close> raises \<^verbatim>\<open>ValueError\<close> for trace \<open>t\<close> and
  count \<open>v\<close> exactly when \<open>t\<close> is the first entry that is not accepted and its count \<open>v\<close>
  is present and is no instance of \<^verbatim>\<open>int\<close>; the error carries the trace and the count.
  When no trace is empty, the run fails exactly when some count is present and is no
  instance of \<^verbatim>\<open>int\<close>. Integer counts of any sign, zero included, and missing counts are
  accepted.
\<close>

theorem compute_directly_follows_validation:
  "(compute_directly_follows td se ee = Inl (ValueError t v)
      \<longleftrightarrow> (\<exists>pre m post. td = pre @ (t, m) # post
             \<and> (\<forall>entry\<in>set pre. fst entry \<noteq> [] \<and> isinstance_int (get_count (snd entry)))
             \<and> count m = Some v \<and> \<not> isinstance_int v))
   \<and> ([] \<notin> set (dict_keys td) \<longrightarrow>
        ((\<exists>e. compute_directly_follows td se ee = Inl e)
           \<longleftrightarrow> (\<exists>entry\<in>set td. \<exists>v'. count (snd entry) = Some v' \<and> \<not> isinstance_int v')))
   \<and> ((\<forall>entry\<in>set td. fst entry \<noteq> []
          \<and> (count (snd entry) = None \<or> (\<exists>n. count (snd entry) = Some (PyInt n))))
        \<longrightarrow> (\<exists>df. compute_directly_follows td se ee = Inr df))"
proof -
  have 1: "compute_directly_follows td se ee = Inl (ValueError t v)
      \<longleftrightarrow> (\<exists>pre m post. td = pre @ (t, m) # post
             \<and> (\<forall>entry\<in>set pre. fst entry \<noteq> [] \<and> isinstance_int (get_count (snd entry)))
             \<and> count m = Some v \<and> \<not> isinstance_int v)"
    unfolding compute_directly_follows_def loop_ValueError_iff accepted_def ..
  have 2: "(\<exists>e. compute_directly_follows td se ee = Inl e)
           \<longleftrightarrow> (\<exists>entry\<in>set td. \<exists>v'. count (snd entry) = Some v' \<and> \<not> isinstance_int v')"
    if "[] \<notin> set (dict_keys td)"
  proof -
    have "fst entry \<noteq> []" if "entry \<in> set td" for entry
      using that \<open>[] \<notin> set (dict_keys td)\<close> by (force simp: dict_keys_def)
    then have "(\<exists>entry\<in>set td. \<not> accepted entry)
        \<longleftrightarrow> (\<exists>entry\<in>set td. \<not> isinstance_int (get_count (snd entry)))"
      by (auto simp: accepted_def)
    then show ?thesis
      unfolding compute_directly_follows_def loop_fails_iff get_count_not_int_iff .
  qed
  have 3: "\<exists>df. compute_directly_follows td se ee = Inr df"
    if "\<forall>entry\<in>set td. fst entry \<noteq> []
          \<and> (count (snd entry) = None \<or> (\<exists>n. count (snd entry) = Some (PyInt n)))"
  proof -
    have "\<forall>entry\<in>set td. accepted entry"
      using that by (auto simp: accepted_def get_count_def)
    then show ?thesis
      unfolding compute_directly_follows_def by (rule loop_accepted)
  qed
  show ?thesis using 1 2 3 by blast
qed

text \<open>
  Claim C6 as stated fails: a count of zero is not a positive integer, and the run returns
  a relation instead of aborting.
\<close>

theorem compute_directly_follows_accepts_zero:
  "compute_directly_follows
     [([''a'', ''b''], \<lparr>count = Some (PyInt 0), frequency = 0\<rparr>)] [''a''] [''b'']
   = Inr [((''start'', ''a''), 0), ((''a'', ''b''), 0), ((''b'', ''end''), 0)]"
  by (simp add: compute_directly_follows_def process_trace_def get_count_def add_edge_def
        dict_get_def)

theorem compute_directly_follows_validation_witness:
  "[] \<notin> set (dict_keys [([''a'', ''b''], \<lparr>count = Some (PyOther ''2.5''), frequency = 1\<rparr>)])
   \<and> compute_directly_follows
        [([''a'', ''b''], \<lparr>count = Some (PyOther ''2.5''), frequency = 1\<rparr>)] [''a''] [''b'']
       = Inl (ValueError [''a'', ''b''] (PyOther ''2.5''))"
proof -
  have "[([''a'', ''b''], \<lparr>count = Some (PyOther ''2.5''), frequency = 1\<rparr>)]
          = [] @ ([''a'', ''b''], \<lparr>count = Some (PyOther ''2.5''), frequency = 1\<rparr>) # []
        \<and> (\<forall>entry\<in>set []. fst entry \<noteq> [] \<and> isinstance_int (get_count (snd entry)))
        \<and> count \<lparr>count = Some (PyOther ''2.5''), frequency = 1\<rparr> = Some (PyOther ''2.5'')
        \<and> \<not> isinstance_int (PyOther ''2.5'')"
    by simp
  then have "\<exists>pre m post.
        [([''a'', ''b''], \<lparr>count = Some (PyOther ''2.5''), frequency = 1\<rparr>)]
          = pre @ ([''a'', ''b''], m) # post
        \<and> (\<forall>entry\<in>set pre. fst entry \<noteq> [] \<and> isinstance_int (get_count (snd entry)))
        \<and> count m = Some (PyOther ''2.5'')
        \<and> \<not> isinstance_int (PyOther ''2.5'')"
    by blast
  then show ?thesis
    using compute_directly_follows_validation
            [of "[([''a'', ''b''], \<lparr>count = Some (PyOther ''2.5''), frequency = 1\<rparr>)]"
                "[''a'']" "[''b'']" "[''a'', ''b'']" "PyOther ''2.5''"]
    by (simp add: dict_keys_def)
qed


lemma process_trace_get_count:
  "get_count m = get_count m' \<Longrightarrow> process_trace se ee t m df = process_trace se ee t m' df"
  by (simp add: process_trace_edges)

lemma loop_missing_count:
  "directly_follows_loop se ee
       (map (\<lambda>(t, m). (t, if count m = None then m\<lparr>count := Some (PyInt 0)\<rparr> else m)) td) df
     = directly_follows_loop se ee td df"
proof (induction td arbitrary: df)
  case Nil
  then show ?case by simp
next
  case (Cons entry td)
  obtain t m where entry: "entry = (t, m)" by (cases entry)
  have "get_count (if count m = None then m\<lparr>count := Some (PyInt 0)\<rparr> else m) = get_count m"
    by (simp add: get_count_def)
  then have "process_trace se ee t (if count m = None then m\<lparr>count := Some (PyInt 0)\<rparr> else m) df
               = process_trace se ee t m df"
    by (rule process_trace_get_count)
  with Cons.IH show ?case by (simp add: entry split: sum.splits)
qed

lemma trace_edges_members:
  "(hd t \<in> set se \<longrightarrow> (''start'', hd t) \<in> set (trace_edges se ee t))
   \<and> (\<forall>i. i + 1 < length t \<longrightarrow> (t ! i, t ! (i + 1)) \<in> set (trace_edges se ee t))
   \<and> (last t \<in> set ee \<longrightarrow> (last t, ''end'') \<in> set (trace_edges se ee t))"
  by (auto simp: trace_edges_def)

lemma present_pair_footprint:
  assumes "(x, y) \<in> fst ` set df" "\<not> sentinel x" "\<not> sentinel y"
  shows "map_of (create_footprint df) (x, y) = Some CausalForward
         \<or> map_of (create_footprint df) (x, y) = Some Parallel"
proof -
  have "real_activity df x" "real_activity df y"
    using assms by (force simp: real_activity_def sentinel_def dict_keys_def list_ex_iff)+
  moreover have "follows df x y" using assms(1) by (simp add: follows_def dict_keys_def)
  ultimately show ?thesis
    by (auto simp: map_of_create_footprint footprint_entry_def Let_def)
qed

text \<open>
  Claim C9. A missing count behaves exactly like the count \<open>0\<close> and raises no error. When
  the run succeeds, every trace of the dictionary, whatever its count, has its start edge,
  its end edge and its consecutive pairs among the keys of the relation, so that a
  consecutive pair of real activities is classified causal-forward or parallel by
  \<^verbatim>\<open>create_footprint\<close> even if its only trace has weight zero. The weight of an edge is
  the sum over the traces of the count times the number of times the trace contributes
  the edge.
\<close>

theorem zero_weight_edges_present:
  "compute_directly_follows
       (map (\<lambda>(t, m). (t, if count m = None then m\<lparr>count := Some (PyInt 0)\<rparr> else m)) td) se ee
     = compute_directly_follows td se ee
   \<and> ((\<forall>entry\<in>set td. fst entry \<noteq> []
          \<and> (count (snd entry) = None \<or> (\<exists>n. count (snd entry) = Some (PyInt n))))
        \<longrightarrow> (\<exists>df'. compute_directly_follows td se ee = Inr df'))
   \<and> (compute_directly_follows td se ee = Inr df \<and> (t, m) \<in> set td \<longrightarrow>
        (hd t \<in> set se \<longrightarrow> (''start'', hd t) \<in> fst ` set df)
        \<and> (last t \<in> set ee \<longrightarrow> (last t, ''end'') \<in> fst ` set df)
        \<and> (\<forall>i. i + 1 < length t \<longrightarrow>
              (t ! i, t ! (i + 1)) \<in> fst ` set df
              \<and> (\<not> sentinel (t ! i) \<and> \<not> sentinel (t ! (i + 1)) \<longrightarrow>
                   map_of (create_footprint df) (t ! i, t ! (i + 1)) = Some CausalForward
                   \<or> map_of (create_footprint df) (t ! i, t ! (i + 1)) = Some Parallel)))
   \<and> (compute_directly_follows td se ee = Inr df \<longrightarrow>
        dict_get df k 0
          = (\<Sum>(t', m')\<leftarrow>td. int_value (get_count m') * int (count_list (trace_edges se ee t') k)))"
proof -
  have 1: "compute_directly_follows
       (map (\<lambda>(t, m). (t, if count m = None then m\<lparr>count := Some (PyInt 0)\<rparr> else m)) td) se ee
     = compute_directly_follows td se ee"
    unfolding compute_directly_follows_def by (rule loop_missing_count)
  have 2: "\<exists>df'. compute_directly_follows td se ee = Inr df'"
    if "\<forall>entry\<in>set td. fst entry \<noteq> []
          \<and> (count (snd entry) = None \<or> (\<exists>n. count (snd entry) = Some (PyInt n)))"
  proof -
    have "\<forall>entry\<in>set td. accepted entry"
      using that by (auto simp: accepted_def get_count_def)
    then show ?thesis
      unfolding compute_directly_follows_def by (rule loop_accepted)
  qed
  have 3: "(hd t \<in> set se \<longrightarrow> (''start'', hd t) \<in> fst ` set df)
        \<and> (last t \<in> set ee \<longrightarrow> (last t, ''end'') \<in> fst ` set df)
        \<and> (\<forall>i. i + 1 < length t \<longrightarrow>
              (t ! i, t ! (i + 1)) \<in> fst ` set df
              \<and> (\<not> sentinel (t ! i) \<and> \<not> sentinel (t ! (i + 1)) \<longrightarrow>
                   map_of (create_footprint df) (t ! i, t ! (i + 1)) = Some CausalForward
                   \<or> map_of (create_footprint df) (t ! i, t ! (i + 1)) = Some Parallel))"
    if ok: "compute_directly_follows td se ee = Inr df" and mem: "(t, m) \<in> set td"
  proof -
    have "set (trace_edges se ee t) \<subseteq> fst ` set df"
      using loop_keys[OF ok[unfolded compute_directly_follows_def]] mem by auto
    then have keys: "(hd t \<in> set se \<longrightarrow> (''start'', hd t) \<in> fst ` set df)
        \<and> (last t \<in> set ee \<longrightarrow> (last t, ''end'') \<in> fst ` set df)
        \<and> (\<forall>i. i + 1 < length t \<longrightarrow> (t ! i, t ! (i + 1)) \<in> fst ` set df)"
      using trace_edges_members[of t se ee] by blast
    then show ?thesis using present_pair_footprint[of _ _ df] by blast
  qed
  have 4: "dict_get df k 0
          = (\<Sum>(t', m')\<leftarrow>td. int_value (get_count m') * int (count_list (trace_edges se ee t') k))"
    if ok: "compute_directly_follows td se ee = Inr df"
    using loop_weights[OF ok[unfolded compute_directly_follows_def], of k] by (simp add: dict_get_def)
  show ?thesis using 1 2 3 4 by blast
qed

theorem zero_weight_edges_present_witness:
  "compute_directly_follows
     [([''a'', ''b''], \<lparr>count = Some (PyInt 1), frequency = 1\<rparr>),
      ([''b'', ''a''], \<lparr>count = None, frequency = 0\<rparr>)] [''a'', ''b''] [''b'', ''a'']
   = Inr [((''start'', ''a''), 1), ((''a'', ''b''), 1), ((''b'', ''end''), 1),
          ((''start'', ''b''), 0), ((''b'', ''a''), 0), ((''a'', ''end''), 0)]
   \<and> (''b'', ''a'') \<in> fst ` set [((''start'', ''a''), 1), ((''a'', ''b''), 1), ((''b'', ''end''), 1),
          ((''start'', ''b''), 0), ((''b'', ''a''), 0), ((''a'', ''end''), 0)]
   \<and> map_of (create_footprint [((''start'', ''a''), 1), ((''a'', ''b''), 1), ((''b'', ''end''), 1),
          ((''start'', ''b''), 0), ((''b'', ''a''), 0), ((''a'', ''end''), 0)]) (''a'', ''b'')
       = Some Parallel
   \<and> map_of (create_footprint [((''start'', ''a''), 1), ((''a'', ''b''), 1), ((''b'', ''end''), 1)])
         (''a'', ''b'') = Some CausalForward"
proof -
  have run: "compute_directly_follows
     [([''a'', ''b''], \<lparr>count = Some (PyInt 1), frequency = 1\<rparr>),
      ([''b'', ''a''], \<lparr>count = None, frequency = 0\<rparr>)] [''a'', ''b''] [''b'', ''a'']
   = Inr [((''start'', ''a''), 1), ((''a'', ''b''), 1), ((''b'', ''end''), 1),
          ((''start'', ''b''), 0), ((''b'', ''a''), 0), ((''a'', ''end''), 0)]"
    by (simp add: compute_directly_follows_def process_trace_def get_count_def add_edge_def
          dict_get_def)
  have fp: "map_of (create_footprint [((''start'', ''a''), 1), ((''a'', ''b''), 1), ((''b'', ''end''), 1),
          ((''start'', ''b''), 0), ((''b'', ''a''), 0), ((''a'', ''end''), 0)]) (''a'', ''b'')
       = Some Parallel"
    by (simp add: map_of_create_footprint real_activity_def footprint_entry_def follows_def
          dict_keys_def)
  have fp': "map_of (create_footprint [((''start'', ''a''), 1), ((''a'', ''b''), 1), ((''b'', ''end''), 1)])
         (''a'', ''b'') = Some CausalForward"
    by (simp add: map_of_create_footprint real_activity_def footprint_entry_def follows_def
          dict_keys_def)
  have mem: "([''b'', ''a''], \<lparr>count = None, frequency = 0\<rparr>)
       \<in> set [([''a'', ''b''], \<lparr>count = Some (PyInt 1), frequency = 1\<rparr>),
              ([''b'', ''a''], \<lparr>count = None, frequency = 0\<rparr>)]"
    by simp
  have "(0::nat) + 1 < length [''b'', ''a'']" by simp
  then have "([''b'', ''a''] ! 0, [''b'', ''a''] ! (0 + 1))
        \<in> fst ` set [((''start'', ''a''), 1), ((''a'', ''b''), 1), ((''b'', ''end''), 1),
          ((''start'', ''b''), 0), ((''b'', ''a''), 0), ((''a'', ''end''), 0 :: int)]"
    using zero_weight_edges_present
            [of "[([''a'', ''b''], \<lparr>count = Some (PyInt 1), frequency = 1\<rparr>),
                  ([''b'', ''a''], \<lparr>count = None, frequency = 0\<rparr>)]"
                "[''a'', ''b'']" "[''b'', ''a'']"
                "[((''start'', ''a''), 1), ((''a'', ''b''), 1), ((''b'', ''end''), 1),
                  ((''start'', ''b''), 0), ((''b'', ''a''), 0), ((''a'', ''end''), 0)]"
                "[''b'', ''a'']" "\<lparr>count = None, frequency = 0\<rparr>"]
          run mem
    by blast
  then show ?thesis using run fp fp' by simp
qed

subsection \<open>The worked example\<close>

lemma scenario_boundary:
  "identify_initial_and_final_events scenario = Inr ([''a''], [''d''])"
  by (simp add: scenario_def identify_initial_and_final_events_def dict_keys_def)

lemma scenario_directly_follows:
  "compute_directly_follows scenario [''a''] [''d''] = Inr scenario_df"
  by (simp add: scenario_def scenario_df_def compute_directly_follows_def process_trace_def
        get_count_def add_edge_def dict_get_def upt_rec)

lemma scenario_real: "real_activity scenario_df x \<longleftrightarrow> x \<in> {''a'', ''b'', ''c'', ''d'', ''e''}"
  by (auto simp: real_activity_def scenario_df_def dict_keys_def)

lemma scenario_independent_sets:
  "find_independent_sets (create_footprint scenario_df)
     = [[''a''], [''c''], [''b''], [''e''], [''d''], [''a'', ''d''], [''c'', ''e''], [''b'', ''e'']]"
  by code_simp


lemma scenario_footprint:
  "map_of (create_footprint scenario_df) (''b'', ''c'') = Some Parallel"
  "map_of (create_footprint scenario_df) (''a'', ''d'') = Some Independent"
  "map_of (create_footprint scenario_df) (''b'', ''e'') = Some Independent"
  "map_of (create_footprint scenario_df) (''c'', ''e'') = Some Independent"
  "map_of (create_footprint scenario_df) (''a'', ''b'') = Some CausalForward"
  "map_of (create_footprint scenario_df) (''c'', ''d'') = Some CausalForward"
  "map_of (create_footprint scenario_df) (''e'', ''d'') = Some CausalForward"
  by (simp_all add: map_of_create_footprint scenario_real footprint_entry_def follows_def)
     (simp_all add: scenario_df_def dict_keys_def)

lemma scenario_weights:
  "map_of scenario_df (''start'', ''a'') = Some 6"
  "map_of scenario_df (''a'', ''b'') = Some 3"
  "map_of scenario_df (''a'', ''c'') = Some 2"
  "map_of scenario_df (''a'', ''e'') = Some 1"
  "map_of scenario_df (''b'', ''c'') = Some 3"
  "map_of scenario_df (''c'', ''b'') = Some 2"
  "map_of scenario_df (''c'', ''d'') = Some 3"
  "map_of scenario_df (''b'', ''d'') = Some 2"
  "map_of scenario_df (''e'', ''d'') = Some 1"
  "map_of scenario_df (''d'', ''end'') = Some 6"
  by (simp_all add: scenario_df_def)

lemma scenario_member:
  "g \<in> set (find_independent_sets (create_footprint scenario_df)) \<Longrightarrow> set g = S
     \<Longrightarrow> S \<in> set (map set (find_independent_sets (create_footprint scenario_df)))"
  by auto

lemma scenario_sets_in:
  "{''a'', ''d''} \<in> set (map set (find_independent_sets (create_footprint scenario_df)))"
  "{''b'', ''e''} \<in> set (map set (find_independent_sets (create_footprint scenario_df)))"
  "{''c'', ''e''} \<in> set (map set (find_independent_sets (create_footprint scenario_df)))"
  "{''a''} \<in> set (map set (find_independent_sets (create_footprint scenario_df)))"
  "{''b''} \<in> set (map set (find_independent_sets (create_footprint scenario_df)))"
  "{''c''} \<in> set (map set (find_independent_sets (create_footprint scenario_df)))"
  "{''d''} \<in> set (map set (find_independent_sets (create_footprint scenario_df)))"
  "{''e''} \<in> set (map set (find_independent_sets (create_footprint scenario_df)))"
proof -
  show "{''a'', ''d''} \<in> set (map set (find_independent_sets (create_footprint scenario_df)))"
    by (rule scenario_member[of "[''a'', ''d'']"]) (simp_all add: scenario_independent_sets)
  show "{''b'', ''e''} \<in> set (map set (find_independent_sets (create_footprint scenario_df)))"
    by (rule scenario_member[of "[''b'', ''e'']"]) (simp_all add: scenario_independent_sets)
  show "{''c'', ''e''} \<in> set (map set (find_independent_sets (create_footprint scenario_df)))"
    by (rule scenario_member[of "[''c'', ''e'']"]) (simp_all add: scenario_independent_sets)
  show "{''a''} \<in> set (map set (find_independent_sets (create_footprint scenario_df)))"
    by (rule scenario_member[of "[''a'']"]) (simp_all add: scenario_independent_sets)
  show "{''b''} \<in> set (map set (find_independent_sets (create_footprint scenario_df)))"
    by (rule scenario_member[of "[''b'']"]) (simp_all add: scenario_independent_sets)
  show "{''c''} \<in> set (map set (find_independent_sets (create_footprint scenario_df)))"
    by (rule scenario_member[of "[''c'']"]) (simp_all add: scenario_independent_sets)
  show "{''d''} \<in> set (map set (find_independent_sets (create_footprint scenario_df)))"
    by (rule scenario_member[of "[''d'']"]) (simp_all add: scenario_independent_sets)
  show "{''e''} \<in> set (map set (find_independent_sets (create_footprint scenario_df)))"
    by (rule scenario_member[of "[''e'']"]) (simp_all add: scenario_independent_sets)
qed

lemma scenario_sets_out:
  "{''a'', ''b'', ''e''} \<notin> set (map set (find_independent_sets (create_footprint scenario_df)))"
  "{''b'', ''c'', ''e''} \<notin> set (map set (find_independent_sets (create_footprint scenario_df)))"
proof -
  have ab: "\<not> (''a'' \<in> set g \<and> ''b'' \<in> set g)"
    and bc: "\<not> (''b'' \<in> set g \<and> ''c'' \<in> set g)"
    if "g \<in> set (find_independent_sets (create_footprint scenario_df))" for g
    using that unfolding scenario_independent_sets by auto
  show "{''a'', ''b'', ''e''} \<notin> set (map set (find_independent_sets (create_footprint scenario_df)))"
  proof
    assume "{''a'', ''b'', ''e''} \<in> set (map set (find_independent_sets (create_footprint scenario_df)))"
    then obtain g where "g \<in> set (find_independent_sets (create_footprint scenario_df))"
        "set g = {''a'', ''b'', ''e''}"
      unfolding set_map by (metis imageE)
    with ab[of g] show False by simp
  qed
  show "{''b'', ''c'', ''e''} \<notin> set (map set (find_independent_sets (create_footprint scenario_df)))"
  proof
    assume "{''b'', ''c'', ''e''} \<in> set (map set (find_independent_sets (create_footprint scenario_df)))"
    then obtain g where "g \<in> set (find_independent_sets (create_footprint scenario_df))"
        "set g = {''b'', ''c'', ''e''}"
      unfolding set_map by (metis imageE)
    with bc[of g] show False by simp
  qed
qed

text \<open>
  Claim C7. On the trace dictionary \<open>(a,b,c,d):3, (a,c,b,d):2, (a,e,d):1\<close> the initial
  activities are \<open>{a}\<close> and the final activities \<open>{d}\<close>; the directly-follows relation
  holds the ten listed edges with the listed weights; the footprint has \<open>(b,c)\<close> parallel,
  \<open>(a,d)\<close>, \<open>(b,e)\<close>, \<open>(c,e)\<close> independent and \<open>(a,b)\<close>, \<open>(c,d)\<close>, \<open>(e,d)\<close>
  causal-forward; the independent sets include \<open>{a,d}\<close>, \<open>{b,e}\<close>, \<open>{c,e}\<close> and the five
  singletons, and neither \<open>{a,b,e}\<close> nor \<open>{b,c,e}\<close>.
\<close>

theorem end_to_end_scenario:
  "identify_initial_and_final_events scenario = Inr ([''a''], [''d''])
   \<and> (case compute_directly_follows scenario [''a''] [''d''] of
        Inl e \<Rightarrow> False
      | Inr df \<Rightarrow>
          map_of df (''start'', ''a'') = Some 6 \<and> map_of df (''a'', ''b'') = Some 3
          \<and> map_of df (''a'', ''c'') = Some 2 \<and> map_of df (''a'', ''e'') = Some 1
          \<and> map_of df (''b'', ''c'') = Some 3 \<and> map_of df (''c'', ''b'') = Some 2
          \<and> map_of df (''c'', ''d'') = Some 3 \<and> map_of df (''b'', ''d'') = Some 2
          \<and> map_of df (''e'', ''d'') = Some 1 \<and> map_of df (''d'', ''end'') = Some 6
          \<and> map_of (create_footprint df) (''b'', ''c'') = Some Parallel
          \<and> map_of (create_footprint df) (''a'', ''d'') = Some Independent
          \<and> map_of (create_footprint df) (''b'', ''e'') = Some Independent
          \<and> map_of (create_footprint df) (''c'', ''e'') = Some Independent
          \<and> map_of (create_footprint df) (''a'', ''b'') = Some CausalForward
          \<and> map_of (create_footprint df) (''c'', ''d'') = Some CausalForward
          \<and> map_of (create_footprint df) (''e'', ''d'') = Some CausalForward
          \<and> {''a'', ''d''} \<in> set (map set (find_independent_sets (create_footprint df)))
          \<and> {''b'', ''e''} \<in> set (map set (find_independent_sets (create_footprint df)))
          \<and> {''c'', ''e''} \<in> set (map set (find_independent_sets (create_footprint df)))
          \<and> {''a''} \<in> set (map set (find_independent_sets (create_footprint df)))
          \<and> {''b''} \<in> set (map set (find_independent_sets (create_footprint df)))
          \<and> {''c''} \<in> set (map set (find_independent_sets (create_footprint df)))
          \<and> {''d''} \<in> set (map set (find_independent_sets (create_footprint df)))
          \<and> {''e''} \<in> set (map set (find_independent_sets (create_footprint df)))
          \<and> {''a'', ''b'', ''e''} \<notin> set (map set (find_independent_sets (create_footprint df)))
          \<and> {''b'', ''c'', ''e''} \<notin> set (map set (find_independent_sets (create_footprint df))))"
  by (simp only: scenario_boundary scenario_directly_follows sum.case scenario_weights
        scenario_footprint scenario_sets_in scenario_sets_out simp_thms)

subsection \<open>Maximal transitions\<close>




















lemma finite_coverage: "finite (coverage k)"
  by (simp add: coverage_def)




text \<open>The dictionaries of the pipeline satisfy the two hypotheses.\<close>

lemma find_transitions_hypotheses:
  assumes "[] \<notin> set sets" "distinct (map set sets)"
  shows "nonempty_sets (find_transitions fp sets) \<and> coverage_distinct (find_transitions fp sets)"
proof -
  have key: "fst k \<in> set sets \<and> snd k \<in> set sets" if "k \<in> set (dict_keys (find_transitions fp sets))" for k
  proof -
    obtain X Y where k: "k = (X, Y)" by (cases k)
    from that obtain r where "map_of (find_transitions fp sets) (X, Y) = Some r"
      unfolding k dict_keys_def by (metis map_of_eq_None_iff not_Some_eq set_map)
    from find_transitions_keys[OF this] show ?thesis unfolding k by auto
  qed
  have inj: "X = Y" if "X \<in> set sets" "Y \<in> set sets" "set X = set Y" for X Y
    using that assms(2) by (auto simp: distinct_map inj_on_def)
  have ne: "fst k \<noteq> [] \<and> snd k \<noteq> []" if "k \<in> set (dict_keys (find_transitions fp sets))" for k
    using key[OF that] assms(1) by metis
  have "k = l" if "k \<in> set (dict_keys (find_transitions fp sets))"
      "l \<in> set (dict_keys (find_transitions fp sets))" "coverage k = coverage l" for k l
  proof -
    have "set (fst k) = set (fst l) \<and> set (snd k) = set (snd l)"
      using that(3) ne[OF that(1)] ne[OF that(2)] unfolding coverage_def times_eq_iff by auto
    then have "fst k = fst l" "snd k = snd l"
      using inj key[OF that(1)] key[OF that(2)] by blast+
    then show ?thesis by (simp add: prod_eq_iff)
  qed
  with ne show ?thesis
    unfolding nonempty_sets_def coverage_distinct_def list_all_iff by blast
qed


subsection \<open>Trace aggregation and the threshold filter\<close>

lemma set_sort_values: "set (sort_values df_log) = set df_log"
  by (simp add: sort_values_def)

lemma length_df_grouped: "length (df_grouped df_log) = card (case_id ` set df_log)"
  by (simp add: df_grouped_def Let_def length_remdups_card_conv set_sort_values)

lemma length_case_traces: "length (case_traces df_log) = card (case_id ` set df_log)"
  by (simp add: case_traces_def length_df_grouped)

lemma sum_list_count_remdups: "(\<Sum>x\<leftarrow>remdups xs. int (count_list xs x)) = int (length xs)"
proof -
  have "(\<Sum>x\<leftarrow>remdups xs. int (count_list xs x)) = (\<Sum>x\<in>set xs. int (count_list xs x))"
    by (simp add: sum_list_distinct_conv_sum_set)
  also have "\<dots> = int (\<Sum>x\<in>set xs. count_list xs x)" by simp
  also have "\<dots> = int (length xs)" by (simp add: sum_count_set)
  finally show ?thesis .
qed

lemma sum_list_sort_key:
  fixes f :: "'a \<Rightarrow> 'b::comm_monoid_add"
  shows "distinct xs \<Longrightarrow> sum_list (map f (sort_key g xs)) = sum_list (map f xs)"
  by (simp add: sum_list_distinct_conv_sum_set)

lemma distinct_counted: "distinct (map (\<lambda>t. (t, int (count_list traces t))) (remdups traces))"
  by (simp add: distinct_map inj_on_def)

lemma value_counts_set:
  "set (value_counts traces) = (\<lambda>t. (t, int (count_list traces t))) ` set traces"
  by (simp add: value_counts_def)

lemma value_counts_distinct: "distinct (map fst (value_counts traces))"
proof -
  have "distinct (value_counts traces)"
    by (simp add: value_counts_def distinct_counted)
  moreover have "inj_on fst (set (value_counts traces))"
    by (auto simp: value_counts_set inj_on_def)
  ultimately show ?thesis by (simp add: distinct_map)
qed

lemma value_counts_sum: "sum_list (map snd (value_counts traces)) = int (length traces)"
proof -
  have "sum_list (map snd (value_counts traces))
          = sum_list (map snd (map (\<lambda>t. (t, int (count_list traces t))) (remdups traces)))"
    unfolding value_counts_def by (rule sum_list_sort_key) (rule distinct_counted)
  also have "\<dots> = (\<Sum>x\<leftarrow>remdups traces. int (count_list traces x))"
    by (simp add: comp_def)
  finally show ?thesis by (simp add: sum_list_count_remdups)
qed

lemma value_counts_positive:
  "(t, c) \<in> set (value_counts traces) \<Longrightarrow> 0 < c \<and> c \<le> int (length traces)"
proof -
  assume "(t, c) \<in> set (value_counts traces)"
  then have t: "t \<in> set traces" and c: "c = int (count_list traces t)"
    by (auto simp: value_counts_set)
  have "count_list traces t \<noteq> 0" using t by (simp add: count_list_0_iff)
  moreover have "count_list traces t \<le> length traces" by (rule count_le_length)
  ultimately show ?thesis unfolding c by simp
qed

lemma read_log_file_map:
  "read_log_file true_divide df_log
     = map (\<lambda>(trace, cnt). (trace, \<lparr>count = Some (PyInt cnt),
                                      frequency = true_divide cnt (length (case_traces df_log))\<rparr>))
           (value_counts (case_traces df_log))"
  by (simp add: read_log_file_def case_traces_def Let_def)


lemma rounded_sum_bound:
  assumes "rounds_within eps dv" "\<forall>(t, c)\<in>set E. 0 < c \<and> c \<le> int n"
  shows "\<bar>(\<Sum>(t, c)\<leftarrow>E. dv c n) - exact_divide (\<Sum>(t, c)\<leftarrow>E. c) n\<bar>
           \<le> eps * exact_divide (\<Sum>(t, c)\<leftarrow>E. c) n"
  using assms(2)
proof (induction E)
  case Nil
  then show ?case by (simp add: exact_divide_def)
next
  case (Cons e E)
  obtain t c where e: "e = (t, c)" by (cases e)
  have c: "0 < c \<and> c \<le> int n" using Cons.prems by (simp add: e)
  have one: "\<bar>dv c n - exact_divide c n\<bar> \<le> eps * exact_divide c n"
    using assms(1) c unfolding rounds_within_def by blast
  have rest: "\<bar>(\<Sum>(t, c)\<leftarrow>E. dv c n) - exact_divide (\<Sum>(t, c)\<leftarrow>E. c) n\<bar>
           \<le> eps * exact_divide (\<Sum>(t, c)\<leftarrow>E. c) n"
    using Cons by simp
  have split: "exact_divide (c + (\<Sum>(t, c)\<leftarrow>E. c)) n
                 = exact_divide c n + exact_divide (\<Sum>(t, c)\<leftarrow>E. c) n"
    by (simp add: exact_divide_def add_divide_distrib)
  have "\<bar>(dv c n + (\<Sum>(t, c)\<leftarrow>E. dv c n))
          - (exact_divide c n + exact_divide (\<Sum>(t, c)\<leftarrow>E. c) n)\<bar>
        \<le> \<bar>dv c n - exact_divide c n\<bar>
          + \<bar>(\<Sum>(t, c)\<leftarrow>E. dv c n) - exact_divide (\<Sum>(t, c)\<leftarrow>E. c) n\<bar>"
    by linarith
  also have "\<dots> \<le> eps * exact_divide c n + eps * exact_divide (\<Sum>(t, c)\<leftarrow>E. c) n"
    using one rest by linarith
  finally show ?case
    by (simp add: e split distrib_left)
qed

lemma exact_divide_self: "0 < n \<Longrightarrow> exact_divide (int n) n = 1"
  by (simp add: exact_divide_def)

lemma rounds_within_exact: "rounds_within 0 exact_divide"
  by (simp add: rounds_within_def)

lemma total_frequency_read:
  "total_frequency (read_log_file dv df_log)
     = (\<Sum>(t, c)\<leftarrow>value_counts (case_traces df_log). dv c (length (case_traces df_log)))"
  by (simp add: total_frequency_def read_log_file_map comp_def case_prod_unfold)

lemma total_count_read:
  "total_count (read_log_file dv df_log) = int (length (case_traces df_log))"
proof -
  have "total_count (read_log_file dv df_log)
          = sum_list (map snd (value_counts (case_traces df_log)))"
    by (simp add: total_count_def read_log_file_map comp_def case_prod_unfold get_count_def)
  then show ?thesis by (simp add: value_counts_sum)
qed

lemma sum_value_counts:
  "(\<Sum>(t, c)\<leftarrow>value_counts traces. c) = int (length traces)"
  using value_counts_sum[of traces] by (simp add: case_prod_unfold comp_def)

lemma total_frequency_bound:
  assumes "rounds_within eps dv" "df_log \<noteq> []"
  shows "\<bar>total_frequency (read_log_file dv df_log) - 1\<bar> \<le> eps"
proof -
  let ?traces = "case_traces df_log"
  have n: "0 < length ?traces"
    using assms(2) by (simp add: length_case_traces card_gt_0_iff)
  have "\<forall>(t, c)\<in>set (value_counts ?traces). 0 < c \<and> c \<le> int (length ?traces)"
    using value_counts_positive by blast
  from rounded_sum_bound[OF assms(1) this]
  show ?thesis
    by (simp add: total_frequency_read sum_value_counts exact_divide_self[OF n])
qed

text \<open>
  Claim C8, amended. The dictionary built by \<^verbatim>\<open>read_log_file\<close> has one entry for each
  distinct trace of a case; its count is the number of cases with that trace and its
  frequency is that count divided by the number of cases of the log (not by the number of
  distinct traces). The counts sum to the number of cases. If the log is not empty, the
  frequencies sum to 1 up to the rounding error of the division, and to exactly 1 when the
  quotients are exact.
\<close>

theorem read_log_file_conservation:
  "distinct (map fst (read_log_file dv df_log))
   \<and> fst ` set (read_log_file dv df_log) = set (case_traces df_log)
   \<and> (\<forall>entry\<in>set (read_log_file dv df_log).
         count (snd entry) = Some (PyInt (int (count_list (case_traces df_log) (fst entry))))
         \<and> frequency (snd entry)
             = dv (int (count_list (case_traces df_log) (fst entry))) (card (case_id ` set df_log)))
   \<and> length (case_traces df_log) = card (case_id ` set df_log)
   \<and> total_count (read_log_file dv df_log) = int (card (case_id ` set df_log))
   \<and> (rounds_within eps dv \<and> df_log \<noteq> []
        \<longrightarrow> \<bar>total_frequency (read_log_file dv df_log) - 1\<bar> \<le> eps)
   \<and> (df_log \<noteq> [] \<longrightarrow> total_frequency (read_log_file exact_divide df_log) = 1)"
proof -
  have keys: "map fst (read_log_file dv df_log) = map fst (value_counts (case_traces df_log))"
    by (simp add: read_log_file_map comp_def case_prod_unfold)
  have 1: "distinct (map fst (read_log_file dv df_log))"
    unfolding keys by (rule value_counts_distinct)
  have 2: "fst ` set (read_log_file dv df_log) = set (case_traces df_log)"
    using arg_cong[OF keys, of set] by (simp add: value_counts_set image_image)
  have 3: "\<forall>entry\<in>set (read_log_file dv df_log).
         count (snd entry) = Some (PyInt (int (count_list (case_traces df_log) (fst entry))))
         \<and> frequency (snd entry)
             = dv (int (count_list (case_traces df_log) (fst entry))) (card (case_id ` set df_log))"
    by (auto simp: read_log_file_map value_counts_set length_case_traces)
  have 4: "total_count (read_log_file dv df_log) = int (card (case_id ` set df_log))"
    by (simp add: total_count_read length_case_traces)
  have 5: "rounds_within eps dv \<and> df_log \<noteq> []
        \<longrightarrow> \<bar>total_frequency (read_log_file dv df_log) - 1\<bar> \<le> eps"
    using total_frequency_bound by blast
  have 6: "df_log \<noteq> [] \<longrightarrow> total_frequency (read_log_file exact_divide df_log) = 1"
    using total_frequency_bound[OF rounds_within_exact, of df_log] by simp
  show ?thesis using 1 2 3 4 5 6 length_case_traces[of df_log] by blast
qed

text \<open>
  Claim C8 as stated fails on the empty log: the dictionary is empty and its frequencies
  sum to 0, not to 1.
\<close>

theorem read_log_file_empty_log:
  "total_frequency (read_log_file exact_divide ([] :: (nat, nat) event list)) = 0
   \<and> total_frequency (read_log_file exact_divide ([] :: (nat, nat) event list)) \<noteq> 1"
  by (simp add: total_frequency_def read_log_file_def df_grouped_def sort_values_def
        value_counts_def)


theorem read_log_file_conservation_witness:
  "[\<lparr>case_id = 1 :: nat, activity_name = ''a'', timestamp = 5 :: nat\<rparr>,
    \<lparr>case_id = 2, activity_name = ''a'', timestamp = 6\<rparr>,
    \<lparr>case_id = 1, activity_name = ''b'', timestamp = 7\<rparr>] \<noteq> []
   \<and> total_frequency (read_log_file exact_divide
         [\<lparr>case_id = 1 :: nat, activity_name = ''a'', timestamp = 5 :: nat\<rparr>,
          \<lparr>case_id = 2, activity_name = ''a'', timestamp = 6\<rparr>,
          \<lparr>case_id = 1, activity_name = ''b'', timestamp = 7\<rparr>]) = 1"
  using read_log_file_conservation
          [of exact_divide
              "[\<lparr>case_id = 1 :: nat, activity_name = ''a'', timestamp = 5 :: nat\<rparr>,
                \<lparr>case_id = 2, activity_name = ''a'', timestamp = 6\<rparr>,
                \<lparr>case_id = 1, activity_name = ''b'', timestamp = 7\<rparr>]" 0]
  by simp

lemma sum_filter_split:
  fixes f :: "'a \<Rightarrow> int"
  shows "sum_list (map f (filter P xs)) + sum_list (map f (filter (\<lambda>x. \<not> P x) xs))
           = sum_list (map f xs)"
  by (induction xs) auto

lemma sum_removed_positive:
  fixes f :: "'a \<Rightarrow> int"
  assumes "\<forall>x\<in>set xs. 0 < f x" "x \<in> set xs" "\<not> P x"
  shows "sum_list (map f (filter P xs)) \<le> sum_list (map f xs) - 1"
proof -
  have "x \<in> set (filter (\<lambda>x. \<not> P x) xs)" using assms(2,3) by simp
  moreover have "\<forall>y\<in>set (filter (\<lambda>x. \<not> P x) xs). 0 \<le> f y"
    using assms(1) by auto
  ultimately have "f x \<le> sum_list (map f (filter (\<lambda>x. \<not> P x) xs))"
    using member_le_sum_list[of "f x" "map f (filter (\<lambda>x. \<not> P x) xs)"] by auto
  moreover have "1 \<le> f x" using assms(1,2) by force
  ultimately show ?thesis using sum_filter_split[of f P xs] by linarith
qed

lemma filtered_frequency_below_one:
  assumes r: "rounds_within eps dv"
    and small: "eps * of_nat (card (case_id ` set df_log)) < 1"
    and removed: "min_frequency_filter (read_log_file dv df_log) mf \<noteq> read_log_file dv df_log"
  shows "total_frequency (min_frequency_filter (read_log_file dv df_log) mf) < 1"
proof -
  let ?traces = "case_traces df_log"
  let ?n = "length ?traces"
  let ?E = "value_counts ?traces"
  let ?h = "\<lambda>(trace, cnt). (trace, \<lparr>count = Some (PyInt cnt), frequency = dv cnt ?n\<rparr>)"
  let ?P = "\<lambda>(t, c). mf \<le> dv c ?n"
  have n_card: "?n = card (case_id ` set df_log)" by (rule length_case_traces)
  have filtered: "min_frequency_filter (read_log_file dv df_log) mf = map ?h (filter ?P ?E)"
    by (simp add: min_frequency_filter_def read_log_file_map filter_map comp_def case_prod_unfold)
  have "filter ?P ?E \<noteq> ?E"
    using removed unfolding filtered by (auto simp: read_log_file_map)
  then obtain e where e: "e \<in> set ?E" "\<not> ?P e"
    by (meson filter_True)
  have pos: "\<forall>(t, c)\<in>set ?E. 0 < c \<and> c \<le> int ?n"
    using value_counts_positive by blast
  then have pos': "\<forall>x\<in>set ?E. 0 < snd x" by auto
  have n: "0 < ?n" using pos e(1) by (cases e) force
  define C where "C = sum_list (map snd (filter ?P ?E))"
  have C_le: "C \<le> int ?n - 1"
    unfolding C_def
    using sum_removed_positive[where f = snd and P = ?P and xs = ?E and x = e, OF pos' e]
    by (simp add: value_counts_sum)
  have C_eq: "(\<Sum>(t, c)\<leftarrow>filter ?P ?E. c) = C"
    by (simp add: C_def case_prod_unfold comp_def)
  have C_ge: "0 \<le> C"
    unfolding C_def using pos' by (intro sum_list_nonneg) auto
  have "\<forall>(t, c)\<in>set (filter ?P ?E). 0 < c \<and> c \<le> int ?n" using pos by auto
  from rounded_sum_bound[OF r this]
  have "(\<Sum>(t, c)\<leftarrow>filter ?P ?E. dv c ?n) \<le> exact_divide C ?n + eps * exact_divide C ?n"
    unfolding C_eq by linarith
  moreover have "total_frequency (min_frequency_filter (read_log_file dv df_log) mf)
                   = (\<Sum>(t, c)\<leftarrow>filter ?P ?E. dv c ?n)"
    unfolding filtered by (simp add: total_frequency_def comp_def case_prod_unfold)
  moreover have "exact_divide C ?n + eps * exact_divide C ?n < 1"
  proof -
    have eps0: "0 \<le> eps" using r by (simp add: rounds_within_def)
    have nq: "(0::rat) < of_nat ?n" using n by simp
    have "(1 + eps) * of_int C \<le> (1 + eps) * (of_nat ?n - 1)"
      using C_le eps0 by (intro mult_left_mono) (simp_all add: of_int_le_iff[symmetric, where ?'a = rat] del: of_int_le_iff)
    also have "\<dots> = of_nat ?n - 1 + eps * of_nat ?n - eps"
      by (simp add: algebra_simps)
    also have "\<dots> < of_nat ?n"
      using small eps0 unfolding n_card by linarith
    finally have "(1 + eps) * of_int C < of_nat ?n" .
    then have "(1 + eps) * of_int C / of_nat ?n < 1"
      using nq by (simp add: divide_less_eq)
    then show ?thesis
      by (simp add: exact_divide_def algebra_simps add_divide_distrib)
  qed
  ultimately show ?thesis by linarith
qed

text \<open>
  Claim C10. The threshold filter keeps exactly the entries whose frequency is at least the
  threshold, as they are and in their order; nothing is renormalised. When it removes at
  least one entry of the dictionary of \<^verbatim>\<open>read_log_file\<close>, the frequencies passed on sum to
  less than 1: always for exact quotients, and for a rounding division as long as the
  relative rounding error times the number of cases is below 1.
\<close>

theorem min_frequency_filter_frame:
  "set (min_frequency_filter td mf) = {entry \<in> set td. mf \<le> frequency (snd entry)}
   \<and> subseq (min_frequency_filter td mf) td
   \<and> (rounds_within eps dv \<and> eps * of_nat (card (case_id ` set df_log)) < 1
        \<and> min_frequency_filter (read_log_file dv df_log) mf \<noteq> read_log_file dv df_log
        \<longrightarrow> total_frequency (min_frequency_filter (read_log_file dv df_log) mf) < 1)
   \<and> (min_frequency_filter (read_log_file exact_divide df_log) mf
          \<noteq> read_log_file exact_divide df_log
        \<longrightarrow> total_frequency (min_frequency_filter (read_log_file exact_divide df_log) mf) < 1)"
proof -
  have 1: "set (min_frequency_filter td mf) = {entry \<in> set td. mf \<le> frequency (snd entry)}"
    by (auto simp: min_frequency_filter_def)
  have 2: "subseq (min_frequency_filter td mf) td"
    by (simp add: min_frequency_filter_def)
  have 3: "total_frequency (min_frequency_filter (read_log_file exact_divide df_log) mf) < 1"
    if "min_frequency_filter (read_log_file exact_divide df_log) mf
          \<noteq> read_log_file exact_divide df_log"
    using filtered_frequency_below_one[OF rounds_within_exact _ that] by simp
  show ?thesis using 1 2 3 filtered_frequency_below_one by blast
qed


theorem min_frequency_filter_frame_witness:
  "rounds_within 0 exact_divide
   \<and> min_frequency_filter (read_log_file exact_divide
     [\<lparr>case_id = 1 :: nat, activity_name = ''a'', timestamp = 5 :: nat\<rparr>,
      \<lparr>case_id = 2, activity_name = ''a'', timestamp = 6\<rparr>,
      \<lparr>case_id = 3, activity_name = ''b'', timestamp = 7\<rparr>]) (1 / 2)
     \<noteq> read_log_file exact_divide
     [\<lparr>case_id = 1 :: nat, activity_name = ''a'', timestamp = 5 :: nat\<rparr>,
      \<lparr>case_id = 2, activity_name = ''a'', timestamp = 6\<rparr>,
      \<lparr>case_id = 3, activity_name = ''b'', timestamp = 7\<rparr>]
   \<and> total_frequency (min_frequency_filter (read_log_file exact_divide
     [\<lparr>case_id = 1 :: nat, activity_name = ''a'', timestamp = 5 :: nat\<rparr>,
      \<lparr>case_id = 2, activity_name = ''a'', timestamp = 6\<rparr>,
      \<lparr>case_id = 3, activity_name = ''b'', timestamp = 7\<rparr>]) (1 / 2)) < 1"
proof -
  have run: "read_log_file exact_divide
     [\<lparr>case_id = 1 :: nat, activity_name = ''a'', timestamp = 5 :: nat\<rparr>,
      \<lparr>case_id = 2, activity_name = ''a'', timestamp = 6\<rparr>,
      \<lparr>case_id = 3, activity_name = ''b'', timestamp = 7\<rparr>]
     = [([''a''], \<lparr>count = Some (PyInt 2), frequency = 2 / 3\<rparr>),
        ([''b''], \<lparr>count = Some (PyInt 1), frequency = 1 / 3\<rparr>)]"
    by code_simp
  have differ: "min_frequency_filter (read_log_file exact_divide
     [\<lparr>case_id = 1 :: nat, activity_name = ''a'', timestamp = 5 :: nat\<rparr>,
      \<lparr>case_id = 2, activity_name = ''a'', timestamp = 6\<rparr>,
      \<lparr>case_id = 3, activity_name = ''b'', timestamp = 7\<rparr>]) (1 / 2)
     \<noteq> read_log_file exact_divide
     [\<lparr>case_id = 1 :: nat, activity_name = ''a'', timestamp = 5 :: nat\<rparr>,
      \<lparr>case_id = 2, activity_name = ''a'', timestamp = 6\<rparr>,
      \<lparr>case_id = 3, activity_name = ''b'', timestamp = 7\<rparr>]"
    unfolding run by (simp add: min_frequency_filter_def)
  have small: "(0::rat) * of_nat (card (case_id ` set
     [\<lparr>case_id = 1 :: nat, activity_name = ''a'', timestamp = 5 :: nat\<rparr>,
      \<lparr>case_id = 2, activity_name = ''a'', timestamp = 6\<rparr>,
      \<lparr>case_id = 3, activity_name = ''b'', timestamp = 7\<rparr>])) < 1"
    by simp
  show ?thesis
    using min_frequency_filter_frame[where eps = 0 and dv = exact_divide and mf = "1 / 2"
     and df_log = "[\<lparr>case_id = 1 :: nat, activity_name = ''a'', timestamp = 5 :: nat\<rparr>,
      \<lparr>case_id = 2, activity_name = ''a'', timestamp = 6\<rparr>,
      \<lparr>case_id = 3, activity_name = ''b'', timestamp = 7\<rparr>]"]
      rounds_within_exact differ small
    by blast
qed

end
